theory Spec2Isabelle
  imports Main
begin

section \<open>Python strings and text files\<close>

text \<open>
  A Python \<open>str\<close> is modelled as a \<open>string\<close>; a \<open>char\<close> stands for a code point below 256.
  The text of a file is the text as Python's text layer delivers it (decoded, with universal
  newlines already translated to the newline character). The builtins \<open>int\<close> and \<open>str\<close> are
  modelled with the interpreter's default limit of 4300 digits on the conversion between
  integers and decimal text.
\<close>

abbreviation newline :: char where
  "newline \<equiv> CHR 0x0A"

abbreviation tab :: char where
  "tab \<equiv> CHR 0x09"

abbreviation space :: char where
  "space \<equiv> CHR 0x20"

text \<open>\<open>str.isspace\<close> on one code point below 256.\<close>

definition isspace :: "char \<Rightarrow> bool" where
  "isspace c \<longleftrightarrow> c \<in> set [CHR 0x09, CHR 0x0A, CHR 0x0B, CHR 0x0C, CHR 0x0D,
     CHR 0x1C, CHR 0x1D, CHR 0x1E, CHR 0x1F, CHR 0x20, CHR 0x85, CHR 0xA0]"

text \<open>\<open>s.strip()\<close>: leading and trailing whitespace removed.\<close>

definition strip :: "string \<Rightarrow> string" where
  "strip s = rev (dropWhile isspace (rev (dropWhile isspace s)))"

text \<open>\<open>s.startswith(p)\<close> and \<open>s.endswith(p)\<close>.\<close>

definition startswith :: "string \<Rightarrow> string \<Rightarrow> bool" where
  "startswith s p \<longleftrightarrow> take (length p) s = p"

definition endswith :: "string \<Rightarrow> string \<Rightarrow> bool" where
  "endswith s p \<longleftrightarrow> length p \<le> length s \<and> drop (length s - length p) s = p"

text \<open>\<open>s.split(sep, 1)\<close> for a separator of one character: one or two pieces.\<close>

definition split1 :: "char \<Rightarrow> string \<Rightarrow> string list" where
  "split1 sep s =
     (if sep \<in> set s
      then [takeWhile (\<lambda>c. c \<noteq> sep) s, tl (dropWhile (\<lambda>c. c \<noteq> sep) s)]
      else [s])"

text \<open>
  The exceptions the script can raise on its inputs: the two-target assignment
  \<open>a, b = pieces\<close> raises \<open>ValueError\<close> when there are not two pieces, \<open>int(s)\<close> raises
  \<open>ValueError\<close> on a string that is no integer literal or has too many digits, and the
  conversion of an integer to its decimal text raises \<open>ValueError\<close> when the integer has too
  many digits.
\<close>

datatype error = ValueError_unpack | ValueError_int | ValueError_str

definition unpack2 :: "string list \<Rightarrow> error + (string \<times> string)" where
  "unpack2 pieces = (case pieces of [a, b] \<Rightarrow> Inr (a, b) | _ \<Rightarrow> Inl ValueError_unpack)"

text \<open>\<open>os.path.basename\<close> (POSIX): what follows the last slash.\<close>

definition basename :: "string \<Rightarrow> string" where
  "basename p = rev (takeWhile (\<lambda>c. c \<noteq> CHR ''/'') (rev p))"

text \<open>
  \<open>for line in f\<close> and \<open>f.readlines()\<close>: the text cut after every newline; each line keeps
  its newline, the last line has none when the text does not end with one.
\<close>

fun readlines :: "string \<Rightarrow> string list" where
  "readlines [] = []"
| "readlines (c # cs) =
     (if c = newline then [c] # readlines cs
      else (case readlines cs of [] \<Rightarrow> [[c]] | l # ls \<Rightarrow> (c # l) # ls))"

text \<open>\<open>f.writelines(lines)\<close> on a file opened for writing: the pieces, one after the other.\<close>

definition writelines :: "string list \<Rightarrow> string" where
  "writelines ls = concat ls"

subsection \<open>Integers and their decimal text\<close>

definition isdigit :: "char \<Rightarrow> bool" where
  "isdigit c \<longleftrightarrow> c \<in> set ''0123456789''"

definition digit_value :: "char \<Rightarrow> nat" where
  "digit_value c = of_char c - 48"

text \<open>
  The digits of an integer literal after the first one: digits, with single underscores
  allowed between two digits.
\<close>

fun parse_digits :: "nat \<Rightarrow> string \<Rightarrow> nat option" where
  "parse_digits acc [] = Some acc"
| "parse_digits acc (c # cs) =
     (if isdigit c then parse_digits (10 * acc + digit_value c) cs
      else if c = CHR ''_'' then
        (case cs of
           [] \<Rightarrow> None
         | d # ds \<Rightarrow> if isdigit d then parse_digits (10 * acc + digit_value d) ds else None)
      else None)"

definition parse_nat :: "string \<Rightarrow> nat option" where
  "parse_nat s =
     (case s of
        [] \<Rightarrow> None
      | c # cs \<Rightarrow> if isdigit c then parse_digits (digit_value c) cs else None)"

text \<open>
  The whitespace that \<open>int\<close> passes over at both ends of its argument: the whitespace of the
  ASCII range that the C library knows (the separators U+001C to U+001F are not among it)
  and, beyond the ASCII range, the whitespace of \<open>str.isspace\<close>.
\<close>

definition int_isspace :: "char \<Rightarrow> bool" where
  "int_isspace c \<longleftrightarrow> c \<in> set [CHR 0x09, CHR 0x0A, CHR 0x0B, CHR 0x0C, CHR 0x0D,
     CHR 0x20, CHR 0x85, CHR 0xA0]"

definition int_strip :: "string \<Rightarrow> string" where
  "int_strip s = rev (dropWhile int_isspace (rev (dropWhile int_isspace s)))"

text \<open>The default of \<open>sys.get_int_max_str_digits()\<close>.\<close>

definition max_str_digits :: nat where
  "max_str_digits = 4300"

text \<open>
  \<open>int(s)\<close>: surrounding whitespace, an optional sign, then the digits. A literal with more
  digits than the limit raises \<open>ValueError\<close> as a string that is no literal does; underscores
  and the sign do not count as digits, leading zeros do.
\<close>

definition py_int :: "string \<Rightarrow> int option" where
  "py_int s =
     (case int_strip s of
        [] \<Rightarrow> None
      | c # cs \<Rightarrow>
          if c = CHR ''-'' then
            (if max_str_digits < length (filter isdigit cs) then None
             else map_option (\<lambda>n. - int n) (parse_nat cs))
          else if c = CHR ''+'' then
            (if max_str_digits < length (filter isdigit cs) then None
             else map_option int (parse_nat cs))
          else
            (if max_str_digits < length (filter isdigit (c # cs)) then None
             else map_option int (parse_nat (c # cs))))"

text \<open>The decimal text of an integer.\<close>

definition digit_char :: "nat \<Rightarrow> char" where
  "digit_char d = ''0123456789'' ! d"

fun str_nat :: "nat \<Rightarrow> string" where
  "str_nat n = (if n < 10 then [digit_char n] else str_nat (n div 10) @ [digit_char (n mod 10)])"

declare str_nat.simps [simp del]

definition py_str :: "int \<Rightarrow> string" where
  "py_str n = (if n < 0 then CHR ''-'' # str_nat (nat (- n)) else str_nat (nat n))"

text \<open>
  \<open>str(n)\<close>, as the f-string \<open>f"{n}"\<close> renders an integer: the decimal text, and \<open>ValueError\<close>
  when the integer has more digits than the limit (the sign does not count).
\<close>

definition format_number :: "int \<Rightarrow> error + string" where
  "format_number n =
     (if max_str_digits < length (str_nat (nat \<bar>n\<bar>)) then Inl ValueError_str
      else Inr (py_str n))"

section \<open>The change-report reader: \<open>get_changes\<close>\<close>

text \<open>
  The loop over the lines of the change report. A line that is empty after stripping is
  passed over; any other line is split at its first tab into status and filename, and kept
  (as basename and status) when the filename ends in \<open>.rgz\<close> or \<open>.gpf\<close>.
\<close>

fun get_changes_loop ::
  "string list \<Rightarrow> (string \<times> string) list \<Rightarrow> error + (string \<times> string) list" where
  "get_changes_loop [] output = Inr output"
| "get_changes_loop (line # rest) output =
     (let stripped_line = strip line in
      if stripped_line \<noteq> [] then
        (case unpack2 (split1 tab stripped_line) of
           Inl e \<Rightarrow> Inl e
         | Inr (status, filename) \<Rightarrow>
             if endswith filename ''.rgz'' \<or> endswith filename ''.gpf''
             then get_changes_loop rest (output @ [(basename filename, status)])
             else get_changes_loop rest output)
      else get_changes_loop rest output)"

definition get_changes :: "string \<Rightarrow> error + (string \<times> string) list" where
  "get_changes changed_files = get_changes_loop (readlines changed_files) []"

section \<open>The manifest reader: \<open>current_patchfile\<close>\<close>

text \<open>
  A Python \<open>dict\<close> with string keys, in insertion order: a list of pairs with distinct keys.
  \<open>d[k] = v\<close> replaces the value of a key that is present, in its place, and appends the pair
  otherwise.
\<close>

type_synonym pydict = "(string \<times> string) list"

fun dict_set :: "pydict \<Rightarrow> string \<Rightarrow> string \<Rightarrow> pydict" where
  "dict_set [] k v = [(k, v)]"
| "dict_set ((k', v') # d) k v = (if k' = k then (k, v) # d else (k', v') # dict_set d k v)"

text \<open>
  The loop over the lines of the manifest: a line whose stripped text starts with two
  slashes is passed over; any other line is split, unstripped, at its first space.
\<close>

fun current_patchfile_loop :: "string list \<Rightarrow> pydict \<Rightarrow> error + pydict" where
  "current_patchfile_loop [] current = Inr current"
| "current_patchfile_loop (line # rest) current =
     (if \<not> startswith (strip line) ''//'' then
        (case unpack2 (split1 space line) of
           Inl e \<Rightarrow> Inl e
         | Inr (num, file) \<Rightarrow> current_patchfile_loop rest (dict_set current num (strip file)))
      else current_patchfile_loop rest current)"

definition current_patchfile :: "string \<Rightarrow> error + pydict" where
  "current_patchfile patch_file = current_patchfile_loop (readlines patch_file) []"

section \<open>The manifest updater: \<open>update_file_entries\<close>\<close>

definition deleted_files :: "(string \<times> string) list \<Rightarrow> string set" where
  "deleted_files github_changes =
     set [filename. (filename, status) \<leftarrow> github_changes, status = ''D'']"

definition added_files :: "(string \<times> string) list \<Rightarrow> string list" where
  "added_files github_changes =
     [filename. (filename, status) \<leftarrow> github_changes, status = ''A'']"

definition modified_files :: "(string \<times> string) list \<Rightarrow> string set" where
  "modified_files github_changes =
     set [filename. (filename, status) \<leftarrow> github_changes, status = ''M'']"

text \<open>
  \<open>for filename in modified_files\<close> runs over a Python set, whose order of iteration is
  not determined by the script: every element once, in some order. The updater below takes
  that order as its first argument; a run of the script is one where it is an iteration
  of the set.
\<close>

definition set_iteration :: "'a list \<Rightarrow> 'a set \<Rightarrow> bool" where
  "set_iteration xs S \<longleftrightarrow> distinct xs \<and> set xs = S"

text \<open>
  The scan of the mapping in reverse: the first identifier met for a deleted or modified
  filename is recorded.
\<close>

fun last_occurrences_loop ::
  "string set \<Rightarrow> string set \<Rightarrow> pydict \<Rightarrow> (string \<rightharpoonup> string) \<Rightarrow> (string \<rightharpoonup> string)" where
  "last_occurrences_loop D M [] last_occurrences = last_occurrences"
| "last_occurrences_loop D M ((num, filename) # rest) last_occurrences =
     (if filename \<in> D \<or> filename \<in> M then
        (if last_occurrences filename = None
         then last_occurrences_loop D M rest (last_occurrences(filename \<mapsto> num))
         else last_occurrences_loop D M rest last_occurrences)
      else last_occurrences_loop D M rest last_occurrences)"

text \<open>\<open>max(map(int, valid_entries.keys()), default=0) + 1\<close>.\<close>

fun int_keys :: "pydict \<Rightarrow> error + int list" where
  "int_keys [] = Inr []"
| "int_keys ((num, filename) # rest) =
     (case py_int num of
        None \<Rightarrow> Inl ValueError_int
      | Some n \<Rightarrow> (case int_keys rest of Inl e \<Rightarrow> Inl e | Inr ns \<Rightarrow> Inr (n # ns)))"

definition next_number :: "pydict \<Rightarrow> error + int" where
  "next_number valid_entries =
     (case int_keys valid_entries of
        Inl e \<Rightarrow> Inl e
      | Inr [] \<Rightarrow> Inr (0 + 1)
      | Inr (n # ns) \<Rightarrow> Inr (fold max ns n + 1))"

text \<open>The loop that re-emits the lines of the manifest.\<close>

fun update_loop ::
  "(string \<rightharpoonup> string) \<Rightarrow> string list \<Rightarrow> string list \<Rightarrow> error + string list" where
  "update_loop last_occurrences [] updated_lines = Inr updated_lines"
| "update_loop last_occurrences (line # rest) updated_lines =
     (let stripped_line = strip line in
      if startswith stripped_line ''//''
      then update_loop last_occurrences rest (updated_lines @ [line])
      else
        (case unpack2 (split1 space stripped_line) of
           Inl e \<Rightarrow> Inl e
         | Inr (num, filename) \<Rightarrow>
             if last_occurrences filename \<noteq> None \<and> last_occurrences filename = Some num
             then update_loop last_occurrences rest (updated_lines @ [''//'' @ line])
             else update_loop last_occurrences rest (updated_lines @ [line])))"

text \<open>The two loops that append the new entries, sharing the counter.\<close>

fun append_entries ::
  "string list \<Rightarrow> int \<Rightarrow> string list \<Rightarrow> error + string list \<times> int" where
  "append_entries [] next_num updated_lines = Inr (updated_lines, next_num)"
| "append_entries (filename # rest) next_num updated_lines =
     (case format_number next_num of
        Inl e \<Rightarrow> Inl e
      | Inr number \<Rightarrow>
          append_entries rest (next_num + 1)
            (updated_lines @ [[newline] @ number @ '' '' @ filename]))"

text \<open>
  The list \<open>updated_lines\<close> as it stands when the file is written. The first argument is the
  order in which the set of modified filenames is iterated; the second is the text of the
  manifest file.
\<close>

definition updated_lines ::
  "string list \<Rightarrow> string \<Rightarrow> pydict \<Rightarrow> (string \<times> string) list \<Rightarrow> error + string list" where
  "updated_lines modified_order patch_file valid_entries github_changes =
     (let lines = readlines patch_file;
          last_occurrences =
            last_occurrences_loop (deleted_files github_changes) (modified_files github_changes)
              (rev valid_entries) Map.empty
      in case next_number valid_entries of
           Inl e \<Rightarrow> Inl e
         | Inr next_num \<Rightarrow>
             (case update_loop last_occurrences lines [] of
                Inl e \<Rightarrow> Inl e
              | Inr updated \<Rightarrow>
                  (case append_entries (added_files github_changes) next_num updated of
                     Inl e \<Rightarrow> Inl e
                   | Inr (updated', next_num') \<Rightarrow>
                       (case append_entries modified_order next_num' updated' of
                          Inl e \<Rightarrow> Inl e
                        | Inr (updated'', next_num'') \<Rightarrow> Inr updated''))))"

text \<open>The new text of the manifest file, or the exception that ends the run before it is written.\<close>

definition update_file_entries ::
  "string list \<Rightarrow> string \<Rightarrow> pydict \<Rightarrow> (string \<times> string) list \<Rightarrow> error + string" where
  "update_file_entries modified_order patch_file valid_entries github_changes =
     (case updated_lines modified_order patch_file valid_entries github_changes of
        Inl e \<Rightarrow> Inl e
      | Inr ls \<Rightarrow> Inr (writelines ls))"

text \<open>
  The script's main block up to the rewriting of the manifest: the change report and the
  manifest are read, then the manifest is updated.
\<close>

definition run_update :: "string list \<Rightarrow> string \<Rightarrow> string \<Rightarrow> error + string" where
  "run_update modified_order changed_files patch_file =
     (case get_changes changed_files of
        Inl e \<Rightarrow> Inl e
      | Inr changes \<Rightarrow>
          (case current_patchfile patch_file of
             Inl e \<Rightarrow> Inl e
           | Inr entries \<Rightarrow> update_file_entries modified_order patch_file entries changes))"

section \<open>The publisher: \<open>commit_and_push_file\<close>\<close>

text \<open>
  The version-control commands run outside the script. The runner stands for that outside:
  handed the argument list of a command and the state of the world, it gives the outcome of
  the command and the new state. A command either exits with a return code or cannot be
  started at all.
\<close>

datatype outcome = Exited int | Not_started

datatype exn = CalledProcessError "string list" int | OSError "string list"

type_synonym 'w runner = "string list \<Rightarrow> 'w \<Rightarrow> outcome \<times> 'w"

text \<open>
  \<open>subprocess.run(args, check=True)\<close>: a return code other than zero raises
  \<open>CalledProcessError\<close>; a command that cannot be started raises an \<open>OSError\<close>.
\<close>

definition subprocess_run :: "'w runner \<Rightarrow> string list \<Rightarrow> 'w \<Rightarrow> (exn + unit) \<times> 'w" where
  "subprocess_run runner args w =
     (case runner args w of
        (Exited returncode, w') \<Rightarrow>
          (if returncode \<noteq> 0 then Inl (CalledProcessError args returncode) else Inr (), w')
      | (Not_started, w') \<Rightarrow> (Inl (OSError args), w'))"

text \<open>The five commands of the \<open>try\<close> block, in their order.\<close>

definition git_commands :: "string \<Rightarrow> string \<Rightarrow> string list list" where
  "git_commands file_path commit_message =
     [[''git'', ''config'', ''--global'', ''user.name'', ''github-actions''],
      [''git'', ''config'', ''--global'', ''user.email'', ''github-actions@github.com''],
      [''git'', ''add'', file_path],
      [''git'', ''commit'', ''-m'', commit_message],
      [''git'', ''push'']]"

text \<open>
  The statements of the \<open>try\<close> block up to the first exception: the exception if there is one,
  the state of the world, and the commands that were handed to the runner.
\<close>

fun run_commands ::
  "'w runner \<Rightarrow> string list list \<Rightarrow> 'w \<Rightarrow> string list list
     \<Rightarrow> exn option \<times> 'w \<times> string list list" where
  "run_commands runner [] w executed = (None, w, executed)"
| "run_commands runner (args # rest) w executed =
     (case subprocess_run runner args w of
        (Inl e, w') \<Rightarrow> (Some e, w', executed @ [args])
      | (Inr u, w') \<Rightarrow> run_commands runner rest w' (executed @ [args]))"

text \<open>The two messages the publisher prints.\<close>

datatype message = Successfully_committed_and_pushed string | Error_committing_and_pushing exn

text \<open>
  What a call of the publisher leaves: the state of the world, the commands it executed, what it
  printed, and the exception that leaves the function, if any.
\<close>

record 'w published =
  world :: 'w
  commands_run :: "string list list"
  printed :: "message list"
  raised :: "exn option"

text \<open>
  The \<open>try\<close> statement: the \<open>except\<close> clause names \<open>subprocess.CalledProcessError\<close> alone and
  prints; any other exception leaves the function.
\<close>

definition commit_and_push_file :: "'w runner \<Rightarrow> string \<Rightarrow> string \<Rightarrow> 'w \<Rightarrow> 'w published" where
  "commit_and_push_file runner file_path commit_message w =
     (case run_commands runner (git_commands file_path commit_message) w [] of
        (None, w', executed) \<Rightarrow>
          \<lparr>world = w', commands_run = executed,
           printed = [Successfully_committed_and_pushed file_path], raised = None\<rparr>
      | (Some (CalledProcessError args returncode), w', executed) \<Rightarrow>
          \<lparr>world = w', commands_run = executed,
           printed = [Error_committing_and_pushing (CalledProcessError args returncode)],
           raised = None\<rparr>
      | (Some (OSError args), w', executed) \<Rightarrow>
          \<lparr>world = w', commands_run = executed, printed = [], raised = Some (OSError args)\<rparr>)"

text \<open>The default of the parameter \<open>commit_message\<close>.\<close>

definition default_commit_message :: string where
  "default_commit_message = ''Update patch file [skip ci]''"

section \<open>Notions used in the statements\<close>

text \<open>A line that both the reader and the updater treat as already deactivated: its stripped text starts with two slashes.\<close>

definition is_comment :: "string \<Rightarrow> bool" where
  "is_comment line \<longleftrightarrow> startswith (strip line) ''//''"

text \<open>The identifier and the filename the updater reads from a line: the stripped line, cut at its first space.\<close>

definition line_num :: "string \<Rightarrow> string" where
  "line_num line = takeWhile (\<lambda>c. c \<noteq> space) (strip line)"

definition line_filename :: "string \<Rightarrow> string" where
  "line_filename line = tl (dropWhile (\<lambda>c. c \<noteq> space) (strip line))"

text \<open>A line on which the updater's loop does not raise: a comment, or a line whose stripped text holds a space.\<close>

definition line_ok :: "string \<Rightarrow> bool" where
  "line_ok line \<longleftrightarrow> is_comment line \<or> space \<in> set (strip line)"

text \<open>The test of the updater's loop on a line, and the line it emits.\<close>

definition rewritten :: "(string \<rightharpoonup> string) \<Rightarrow> string \<Rightarrow> bool" where
  "rewritten lo line \<longleftrightarrow> \<not> is_comment line \<and> lo (line_filename line) = Some (line_num line)"

definition emit :: "(string \<rightharpoonup> string) \<Rightarrow> string \<Rightarrow> string" where
  "emit lo line = (if rewritten lo line then ''//'' @ line else line)"

text \<open>The identifier of the last entry of a mapping, in its order of iteration, that holds a given filename.\<close>

definition last_entry :: "pydict \<Rightarrow> string \<Rightarrow> string option" where
  "last_entry valid_entries filename = map_of (map (\<lambda>(num, file). (file, num)) (rev valid_entries)) filename"

text \<open>The text appended for a new entry: the f-string of the two appending loops.\<close>

definition entry_line :: "int \<Rightarrow> string \<Rightarrow> string" where
  "entry_line n filename = [newline] @ py_str n @ '' '' @ filename"

text \<open>The greatest identifier of a mapping whose keys are integer literals, and 0 for the empty mapping.\<close>

definition max_identifier :: "pydict \<Rightarrow> int" where
  "max_identifier valid_entries =
     (if valid_entries = [] then 0 else Max (set (map (\<lambda>e. the (py_int (fst e))) valid_entries)))"

text \<open>The filenames that receive a new entry, in the order of the two appending loops.\<close>

definition appended_files :: "string list \<Rightarrow> (string \<times> string) list \<Rightarrow> string list" where
  "appended_files modified_order github_changes = added_files github_changes @ modified_order"

text \<open>The dictionary \<open>last_occurrences\<close> that the updater builds from the mapping and the change records.\<close>

definition last_occurrences_of :: "pydict \<Rightarrow> (string \<times> string) list \<Rightarrow> (string \<rightharpoonup> string)" where
  "last_occurrences_of valid_entries github_changes =
     last_occurrences_loop (deleted_files github_changes) (modified_files github_changes)
       (rev valid_entries) Map.empty"

text \<open>The entries appended for a list of filenames, from a first identifier on.\<close>

fun entries_from :: "int \<Rightarrow> string list \<Rightarrow> string list" where
  "entries_from n [] = []"
| "entries_from n (filename # rest) = entry_line n filename # entries_from (n + 1) rest"

text \<open>The shape of the lines of a text: none is empty, a newline stands only at the end of a line, and every line but the last ends with one.\<close>

definition lines_wf :: "string list \<Rightarrow> bool" where
  "lines_wf ls \<longleftrightarrow>
     (\<forall>l\<in>set ls. l \<noteq> [] \<and> newline \<notin> set (butlast l)) \<and> (\<forall>l\<in>set (butlast ls). last l = newline)"

text \<open>The identifier and the filename the reader takes from an unstripped line, and the entries of a manifest: its lines that are no comments, in the order of the file.\<close>

definition raw_num :: "string \<Rightarrow> string" where
  "raw_num line = takeWhile (\<lambda>c. c \<noteq> space) line"

definition raw_filename :: "string \<Rightarrow> string" where
  "raw_filename line = strip (tl (dropWhile (\<lambda>c. c \<noteq> space) line))"

definition manifest_entries :: "string \<Rightarrow> (string \<times> string) list" where
  "manifest_entries patch_file =
     map (\<lambda>line. (raw_num line, raw_filename line))
       (filter (\<lambda>line. \<not> is_comment line) (readlines patch_file))"

text \<open>A list without its repetitions, every element at the place of its first occurrence.\<close>

definition first_occurrences :: "'a list \<Rightarrow> 'a list" where
  "first_occurrences xs = rev (remdups (rev xs))"

text \<open>The order that the specification states for the appended entries: the added filenames, then the modified filenames, each in the order of the change records.\<close>

definition encounter_order :: "(string \<times> string) list \<Rightarrow> string list" where
  "encounter_order github_changes =
     added_files github_changes
       @ first_occurrences [filename. (filename, status) \<leftarrow> github_changes, status = ''M'']"

text \<open>The state of the world after a list of commands has been handed to the runner, one after the other.\<close>

definition world_after :: "'w runner \<Rightarrow> string list list \<Rightarrow> 'w \<Rightarrow> 'w" where
  "world_after runner cmds w = fold (\<lambda>args w. snd (runner args w)) cmds w"

text \<open>A line that is an active occurrence of a filename, as the updater reads it.\<close>

definition occurrence_of :: "string \<Rightarrow> string \<Rightarrow> bool" where
  "occurrence_of filename line \<longleftrightarrow> \<not> is_comment line \<and> line_filename line = filename"

text \<open>
  A line from which the reader, which splits the unstripped line, and the updater, which
  splits the stripped line, take the same identifier and the same filename.
\<close>

definition reads_alike :: "string \<Rightarrow> bool" where
  "reads_alike line \<longleftrightarrow> raw_num line = line_num line \<and> raw_filename line = line_filename line"

text \<open>
  The identifiers given to a list of filenames, from a first identifier on, all have a
  decimal text within the limit of digits.
\<close>

fun numbers_fit :: "int \<Rightarrow> string list \<Rightarrow> bool" where
  "numbers_fit n [] = True"
| "numbers_fit n (filename # rest) =
     (length (str_nat (nat \<bar>n\<bar>)) \<le> max_str_digits \<and> numbers_fit (n + 1) rest)"

text \<open>
  What the change-report reader appends for a line that is not blank and holds a tab: the
  stripped line is cut at its first tab into status and filename, and the record of basename
  and status is kept when the filename has one of the two suffixes.
\<close>

definition change_record :: "string \<Rightarrow> (string \<times> string) list" where
  "change_record line =
     (let status = takeWhile (\<lambda>c. c \<noteq> tab) (strip line);
          filename = tl (dropWhile (\<lambda>c. c \<noteq> tab) (strip line))
      in if endswith filename ''.rgz'' \<or> endswith filename ''.gpf''
         then [(basename filename, status)] else [])"

text \<open>Two runners for the publisher: one for which no command can be started, one for which the commit exits with code 1 and every other command with code 0.\<close>

definition runner_git_missing :: "unit runner" where
  "runner_git_missing args w = (Not_started, w)"

definition runner_commit_fails :: "nat runner" where
  "runner_commit_fails args n =
     (if args = [''git'', ''commit'', ''-m'', default_commit_message] then Exited 1 else Exited 0,
      Suc n)"

text \<open>A runner for which every command exits with code 0.\<close>

definition runner_succeeds :: "unit runner" where
  "runner_succeeds args w = (Exited 0, w)"

section \<open>Auxiliary facts\<close>

lemma unpack2_split1:
  "unpack2 (split1 sep s) =
     (if sep \<in> set s then Inr (takeWhile (\<lambda>c. c \<noteq> sep) s, tl (dropWhile (\<lambda>c. c \<noteq> sep) s))
      else Inl ValueError_unpack)"
  by (simp add: unpack2_def split1_def)

lemma update_loop_eq:
  "update_loop lo ls acc =
     (if \<forall>l\<in>set ls. line_ok l then Inr (acc @ map (emit lo) ls) else Inl ValueError_unpack)"
proof (induction ls arbitrary: acc)
  case Nil
  show ?case by simp
next
  case (Cons l ls)
  show ?case
    by (auto simp add: Cons.IH Let_def unpack2_split1 line_ok_def emit_def rewritten_def
        is_comment_def line_num_def line_filename_def)
qed

lemma int_keys_eq:
  "int_keys ve =
     (if \<forall>k\<in>set (map fst ve). py_int k \<noteq> None
      then Inr (map (\<lambda>e. the (py_int (fst e))) ve) else Inl ValueError_int)"
  by (induction ve rule: int_keys.induct) (auto split: option.splits)

lemma fold_max_eq: "fold max ns (n::int) = Max (set (n # ns))"
  by (rule Max.set_eq_fold [symmetric])

lemma last_occurrences_loop_eq:
  "last_occurrences_loop D M es lo f =
     (case lo f of
        Some k \<Rightarrow> Some k
      | None \<Rightarrow> if f \<in> D \<union> M then map_of (map (\<lambda>(num, file). (file, num)) es) f else None)"
proof (induction es arbitrary: lo)
  case Nil
  show ?case by (simp split: option.splits)
next
  case (Cons e es)
  obtain num fname where e: "e = (num, fname)" by (cases e)
  show ?case
    unfolding e by (simp add: Cons.IH split: option.splits)
qed

lemma last_occurrences_eq:
  "last_occurrences_loop D M (rev ve) Map.empty f =
     (if f \<in> D \<union> M then last_entry ve f else None)"
  by (simp add: last_occurrences_loop_eq last_entry_def)

lemma last_entry_snoc:
  "last_entry (ve @ [(k, v)]) f = (if v = f then Some k else last_entry ve f)"
  by (simp add: last_entry_def)

lemma last_entry_Some_iff:
  "last_entry ve f = Some k \<longleftrightarrow>
     (\<exists>pre post. ve = pre @ [(k, f)] @ post \<and> f \<notin> snd ` set post)"
proof (induction ve rule: rev_induct)
  case Nil
  show ?case by (simp add: last_entry_def)
next
  case (snoc e ve)
  obtain k' v' where e: "e = (k', v')" by (cases e)
  show ?case
  proof (cases "v' = f")
    case True
    have "(\<exists>pre post. ve @ [(k', f)] = pre @ [(k, f)] @ post \<and> f \<notin> snd ` set post) \<longleftrightarrow> k' = k"
    proof
      assume "\<exists>pre post. ve @ [(k', f)] = pre @ [(k, f)] @ post \<and> f \<notin> snd ` set post"
      then obtain pre post where eq: "ve @ [(k', f)] = pre @ [(k, f)] @ post"
        and nin: "f \<notin> snd ` set post" by blast
      show "k' = k"
      proof (cases post rule: rev_cases)
        case Nil
        with eq show ?thesis by simp
      next
        case (snoc post' p)
        with eq have "p = (k', f)" by simp
        with snoc nin show ?thesis by force
      qed
    next
      assume "k' = k"
      then have "ve @ [(k', f)] = ve @ [(k, f)] @ [] \<and> f \<notin> snd ` set []" by simp
      then show "\<exists>pre post. ve @ [(k', f)] = pre @ [(k, f)] @ post \<and> f \<notin> snd ` set post"
        by blast
    qed
    with True e show ?thesis by (simp add: last_entry_snoc)
  next
    case False
    have "(\<exists>pre post. ve @ [(k', v')] = pre @ [(k, f)] @ post \<and> f \<notin> snd ` set post)
       \<longleftrightarrow> (\<exists>pre post. ve = pre @ [(k, f)] @ post \<and> f \<notin> snd ` set post)"
    proof
      assume "\<exists>pre post. ve @ [(k', v')] = pre @ [(k, f)] @ post \<and> f \<notin> snd ` set post"
      then obtain pre post where eq: "ve @ [(k', v')] = pre @ [(k, f)] @ post"
        and nin: "f \<notin> snd ` set post" by blast
      show "\<exists>pre post. ve = pre @ [(k, f)] @ post \<and> f \<notin> snd ` set post"
      proof (cases post rule: rev_cases)
        case Nil
        with eq False show ?thesis by simp
      next
        case (snoc post' p)
        with eq have "ve = pre @ [(k, f)] @ post'" by simp
        moreover from snoc nin have "f \<notin> snd ` set post'" by auto
        ultimately show ?thesis by blast
      qed
    next
      assume "\<exists>pre post. ve = pre @ [(k, f)] @ post \<and> f \<notin> snd ` set post"
      then obtain pre post where "ve = pre @ [(k, f)] @ post" and "f \<notin> snd ` set post" by blast
      with False have "ve @ [(k', v')] = pre @ [(k, f)] @ (post @ [(k', v')])
          \<and> f \<notin> snd ` set (post @ [(k', v')])" by auto
      then show "\<exists>pre post. ve @ [(k', v')] = pre @ [(k, f)] @ post \<and> f \<notin> snd ` set post"
        by blast
    qed
    with False e snoc.IH show ?thesis by (simp add: last_entry_snoc)
  qed
qed

lemma next_number_eq:
  "next_number ve =
     (if \<forall>k\<in>set (map fst ve). py_int k \<noteq> None then Inr (max_identifier ve + 1)
      else Inl ValueError_int)"
proof (cases ve)
  case Nil
  then show ?thesis by (simp add: next_number_def max_identifier_def)
next
  case (Cons e es)
  show ?thesis
    unfolding next_number_def int_keys_eq
    by (simp add: Cons max_identifier_def fold_max_eq)
qed

lemma append_entries_eq:
  "append_entries fs n acc =
     (if numbers_fit n fs then Inr (acc @ entries_from n fs, n + int (length fs))
      else Inl ValueError_str)"
  by (induction fs arbitrary: n acc) (simp_all add: entry_line_def format_number_def)

lemma numbers_fit_append:
  "numbers_fit n (fs @ gs) \<longleftrightarrow> numbers_fit n fs \<and> numbers_fit (n + int (length fs)) gs"
  by (induction fs arbitrary: n) (simp_all add: add.assoc)

lemma numbers_fit_nth:
  "numbers_fit n fs \<Longrightarrow> k < length fs \<Longrightarrow> length (str_nat (nat \<bar>n + int k\<bar>)) \<le> max_str_digits"
proof (induction fs arbitrary: n k)
  case Nil
  then show ?case by simp
next
  case (Cons f fs)
  show ?case
  proof (cases k)
    case 0
    with Cons.prems show ?thesis by simp
  next
    case (Suc j)
    with Cons.prems have "numbers_fit (n + 1) fs" "j < length fs" by simp_all
    from Cons.IH [OF this] Suc show ?thesis by (simp add: add.assoc)
  qed
qed

lemma entries_from_append:
  "entries_from n (fs @ gs) = entries_from n fs @ entries_from (n + int (length fs)) gs"
  by (induction fs arbitrary: n) (simp_all add: add.assoc)

lemma length_entries_from: "length (entries_from n fs) = length fs"
  by (induction fs arbitrary: n) simp_all

lemma nth_entries_from:
  "k < length fs \<Longrightarrow> entries_from n fs ! k = entry_line (n + int k) (fs ! k)"
proof (induction fs arbitrary: n k)
  case Nil
  then show ?case by simp
next
  case (Cons f fs)
  show ?case
  proof (cases k)
    case 0
    then show ?thesis by simp
  next
    case (Suc j)
    with Cons.prems have "j < length fs" by simp
    from Cons.IH [OF this, of "n + 1"] Suc show ?thesis by (simp add: add.assoc)
  qed
qed

lemma updated_lines_eq:
  "updated_lines ms content ve chg =
     (if \<exists>k\<in>set (map fst ve). py_int k = None then Inl ValueError_int
      else if \<exists>l\<in>set (readlines content). \<not> line_ok l then Inl ValueError_unpack
      else if \<not> numbers_fit (max_identifier ve + 1) (appended_files ms chg) then Inl ValueError_str
      else Inr (map (emit (last_occurrences_of ve chg)) (readlines content)
                @ entries_from (max_identifier ve + 1) (appended_files ms chg)))"
  unfolding updated_lines_def next_number_eq update_loop_eq append_entries_eq
  by (simp add: Let_def appended_files_def last_occurrences_of_def entries_from_append
      numbers_fit_append)

lemma set_strip: "set (strip s) \<subseteq> set s"
proof
  fix c assume "c \<in> set (strip s)"
  then have "c \<in> set (dropWhile isspace (rev (dropWhile isspace s)))"
    by (simp add: strip_def)
  then have "c \<in> set (rev (dropWhile isspace s))" by (rule set_dropWhileD)
  then have "c \<in> set (dropWhile isspace s)" by simp
  then show "c \<in> set s" by (rule set_dropWhileD)
qed

lemma strip_Nil_iff: "strip s = [] \<longleftrightarrow> (\<forall>c\<in>set s. isspace c)"
proof
  assume "strip s = []"
  then have "\<forall>c\<in>set (dropWhile isspace s). isspace c"
    by (simp add: strip_def dropWhile_eq_Nil_conv)
  then have "dropWhile isspace s = []"
    using hd_dropWhile [of isspace s] hd_in_set [of "dropWhile isspace s"] by blast
  then show "\<forall>c\<in>set s. isspace c" by (simp add: dropWhile_eq_Nil_conv)
next
  assume "\<forall>c\<in>set s. isspace c"
  then show "strip s = []" by (auto simp add: strip_def dest: set_dropWhileD)
qed

lemma strip_append_spaces:
  assumes "\<forall>c\<in>set w. isspace c"
  shows "strip (s @ w) = strip s"
proof (cases "\<forall>c\<in>set s. isspace c")
  case True
  with assms have "\<forall>c\<in>set (s @ w). isspace c" by auto
  then have "strip (s @ w) = []" by (simp only: strip_Nil_iff)
  moreover from True have "strip s = []" by (simp only: strip_Nil_iff)
  ultimately show ?thesis by simp
next
  case False
  then have "dropWhile isspace (s @ w) = dropWhile isspace s @ w"
    by (auto simp add: dropWhile_append)
  moreover have "dropWhile isspace (rev w @ r) = dropWhile isspace r" for r
    using assms by (simp add: dropWhile_append)
  ultimately show ?thesis by (simp add: strip_def)
qed

lemma strip_id:
  assumes "s \<noteq> []" "\<not> isspace (hd s)" "\<not> isspace (last s)"
  shows "strip s = s"
proof -
  from assms have "dropWhile isspace s = s" by (cases s) auto
  moreover from assms have "dropWhile isspace (rev s) = rev s"
    by (cases s rule: rev_cases) auto
  ultimately show ?thesis by (simp add: strip_def)
qed

lemma strip_ends:
  assumes "strip s \<noteq> []"
  shows "\<not> isspace (hd (strip s))" and "\<not> isspace (last (strip s))"
proof -
  let ?d = "dropWhile isspace s"
  let ?r = "dropWhile isspace (rev ?d)"
  from assms have r: "?r \<noteq> []" by (simp add: strip_def)
  have d: "?d \<noteq> []"
  proof
    assume "?d = []"
    then have "rev ?d = []" by (simp only: rev.simps)
    then have "?r = []" by (simp only: dropWhile.simps)
    with r show False by blast
  qed
  have "\<not> isspace (hd ?r)" using r by (rule hd_dropWhile)
  then show "\<not> isspace (last (strip s))" using r by (simp add: strip_def last_rev)
  have hd_d: "\<not> isspace (hd ?d)" using d by (rule hd_dropWhile)
  have "last (rev ?d) = hd ?d" using d by (simp add: last_rev)
  moreover have "?r \<noteq> [] \<Longrightarrow> last ?r = last (rev ?d)"
    by (metis append_is_Nil_conv last_appendR takeWhile_dropWhile_id)
  ultimately have "last ?r = hd ?d" using r by simp
  then have "hd (strip s) = hd ?d" using r by (simp add: strip_def hd_rev)
  with hd_d show "\<not> isspace (hd (strip s))" by simp
qed

lemma concat_readlines: "concat (readlines s) = s"
  by (induction s) (auto split: list.splits)

lemma readlines_Nil_iff: "readlines s = [] \<longleftrightarrow> s = []"
  by (cases s) (auto split: list.splits)

lemma readlines_no_newline: "newline \<notin> set b \<Longrightarrow> readlines (b @ [c]) = [b @ [c]]"
  by (induction b) (auto split: list.splits)

lemma readlines_split:
  "readlines (a @ [newline] @ b) = readlines (a @ [newline]) @ readlines b"
proof (induction a)
  case Nil
  show ?case by simp
next
  case (Cons c a)
  have ne: "readlines (a @ [newline]) \<noteq> []" by (simp add: readlines_Nil_iff)
  then obtain l ls where "readlines (a @ [newline]) = l # ls" by (cases "readlines (a @ [newline])") auto
  with Cons show ?case by simp
qed

lemma lines_wf_Cons:
  "lines_wf (l # ls) \<longleftrightarrow>
     l \<noteq> [] \<and> newline \<notin> set (butlast l) \<and> (ls \<noteq> [] \<longrightarrow> last l = newline) \<and> lines_wf ls"
  by (auto simp add: lines_wf_def)

lemma lines_wf_Nil: "lines_wf []"
  by (simp add: lines_wf_def)

lemma readlines_concat: "lines_wf ls \<Longrightarrow> readlines (concat ls) = ls"
proof (induction ls)
  case Nil
  show ?case by simp
next
  case (Cons l ls)
  from Cons.prems have l: "l \<noteq> []" "newline \<notin> set (butlast l)"
    and wf: "lines_wf ls" and lst: "ls \<noteq> [] \<Longrightarrow> last l = newline"
    by (simp_all add: lines_wf_Cons)
  from l have one: "readlines l = [l]"
    using readlines_no_newline [of "butlast l" "last l"] by simp
  show ?case
  proof (cases "ls = []")
    case True
    with one show ?thesis by simp
  next
    case False
    with lst l have "l = butlast l @ [newline]" by (metis append_butlast_last_id)
    then have "readlines (concat (l # ls)) = readlines (butlast l @ [newline] @ concat ls)"
      by (metis append.assoc concat.simps(2))
    also have "\<dots> = readlines (butlast l @ [newline]) @ readlines (concat ls)"
      by (rule readlines_split)
    also have "\<dots> = l # ls"
      using \<open>l = butlast l @ [newline]\<close> one Cons.IH [OF wf] by simp
    finally show ?thesis .
  qed
qed

lemma lines_wf_readlines: "lines_wf (readlines s)"
proof (induction s)
  case Nil
  show ?case by (simp add: lines_wf_Nil)
next
  case (Cons c s)
  show ?case
  proof (cases "c = newline")
    case True
    with Cons show ?thesis by (simp add: lines_wf_Cons)
  next
    case False
    show ?thesis
    proof (cases "readlines s")
      case Nil
      with False show ?thesis by (simp add: lines_wf_Cons lines_wf_Nil)
    next
      case (Cons l ls)
      with \<open>lines_wf (readlines s)\<close> have "lines_wf (l # ls)" by simp
      then have "lines_wf ((c # l) # ls)"
        using False by (auto simp add: lines_wf_Cons)
      with Cons False show ?thesis by simp
    qed
  qed
qed

lemma readlines_ends_newline:
  assumes "s \<noteq> []" "last s = newline"
  shows "\<forall>l\<in>set (readlines s). last l = newline"
  using assms
proof (induction s)
  case Nil
  then show ?case by simp
next
  case (Cons c s)
  show ?case
  proof (cases "s = []")
    case True
    with Cons.prems show ?thesis by simp
  next
    case False
    with Cons have ih: "\<forall>l\<in>set (readlines s). last l = newline" by simp
    from False have ne: "readlines s \<noteq> []" by (simp add: readlines_Nil_iff)
    have nel: "\<forall>l\<in>set (readlines s). l \<noteq> []"
      using lines_wf_readlines [of s] by (simp add: lines_wf_def)
    show ?thesis
    proof (cases "c = newline")
      case True
      with ih show ?thesis by simp
    next
      case False
      from ne obtain l ls where r: "readlines s = l # ls" by (cases "readlines s") auto
      with nel have "l \<noteq> []" by simp
      with r ih False show ?thesis by simp
    qed
  qed
qed

lemma get_changes_loop_error:
  "\<exists>l\<in>set ls. strip l \<noteq> [] \<and> tab \<notin> set (strip l) \<Longrightarrow>
     get_changes_loop ls acc = Inl ValueError_unpack"
proof (induction ls arbitrary: acc)
  case Nil
  then show ?case by simp
next
  case (Cons l ls)
  show ?case
  proof (cases "strip l \<noteq> [] \<and> tab \<notin> set (strip l)")
    case True
    then show ?thesis by (simp add: unpack2_split1)
  next
    case False
    with Cons.prems have "\<exists>l\<in>set ls. strip l \<noteq> [] \<and> tab \<notin> set (strip l)" by auto
    then have "get_changes_loop ls acc' = Inl ValueError_unpack" for acc'
      by (rule Cons.IH)
    then show ?thesis by (simp add: Let_def unpack2_split1)
  qed
qed

lemma get_changes_loop_filter:
  "get_changes_loop (filter (\<lambda>l. strip l \<noteq> []) ls) acc = get_changes_loop ls acc"
  by (induction ls arbitrary: acc) (auto simp add: Let_def split: sum.splits)

lemma current_patchfile_loop_filter:
  "current_patchfile_loop (filter (\<lambda>l. \<not> is_comment l) ls) cur = current_patchfile_loop ls cur"
  by (induction ls arbitrary: cur) (auto simp add: is_comment_def split: sum.splits)

lemma current_patchfile_loop_eq:
  "current_patchfile_loop ls cur =
     (if \<exists>l\<in>set ls. \<not> is_comment l \<and> space \<notin> set l then Inl ValueError_unpack
      else Inr (foldl (\<lambda>d l. dict_set d (raw_num l) (raw_filename l)) cur
                  (filter (\<lambda>l. \<not> is_comment l) ls)))"
  by (induction ls arbitrary: cur)
     (auto simp add: is_comment_def unpack2_split1 raw_num_def raw_filename_def)

lemma keys_dict_set:
  "map fst (dict_set d k v) = (if k \<in> set (map fst d) then map fst d else map fst d @ [k])"
  by (induction d k v rule: dict_set.induct) auto

lemma map_of_dict_set: "map_of (dict_set d k v) = (map_of d)(k \<mapsto> v)"
  by (induction d k v rule: dict_set.induct) (auto simp add: fun_eq_iff)

lemma dict_set_fresh: "k \<notin> set (map fst d) \<Longrightarrow> dict_set d k v = d @ [(k, v)]"
  by (induction d k v rule: dict_set.induct) auto

lemma first_occurrences_snoc:
  "first_occurrences (xs @ [x]) =
     (if x \<in> set xs then first_occurrences xs else first_occurrences xs @ [x])"
  by (simp add: first_occurrences_def)

lemma set_first_occurrences: "set (first_occurrences xs) = set xs"
  by (simp add: first_occurrences_def)

lemma distinct_first_occurrences: "distinct (first_occurrences xs)"
  by (simp add: first_occurrences_def)

lemma first_occurrences_distinct: "distinct xs \<Longrightarrow> first_occurrences xs = xs"
  by (simp add: first_occurrences_def distinct_remdups_id)

lemma dict_of_entries:
  fixes es :: "(string \<times> string) list"
  defines "d \<equiv> foldl (\<lambda>d e. dict_set d (fst e) (snd e)) [] es"
  shows "map fst d = first_occurrences (map fst es)"
    and "map_of d = map_of (rev es)"
    and "distinct (map fst es) \<Longrightarrow> d = es"
  unfolding d_def
proof (induction es rule: rev_induct)
  case Nil
  { case 1 show ?case by (simp add: first_occurrences_def) }
  { case 2 show ?case by simp }
  { case 3 show ?case by simp }
next
  case (snoc e es)
  { case 1
    show ?case
      by (simp add: keys_dict_set snoc.IH(1) first_occurrences_snoc set_first_occurrences) }
  { case 2
    show ?case
      by (cases e) (simp add: map_of_dict_set snoc.IH(2) fun_eq_iff) }
  { case 3
    then have "distinct (map fst es)" and "fst e \<notin> set (map fst es)" by simp_all
    with snoc.IH(3) show ?case by (simp add: dict_set_fresh) }
qed

lemma update_file_entries_eq:
  "update_file_entries ms content ve chg =
     (if \<exists>k\<in>set (map fst ve). py_int k = None then Inl ValueError_int
      else if \<exists>l\<in>set (readlines content). \<not> line_ok l then Inl ValueError_unpack
      else if \<not> numbers_fit (max_identifier ve + 1) (appended_files ms chg) then Inl ValueError_str
      else Inr (concat (map (emit (last_occurrences_of ve chg)) (readlines content))
                @ concat (entries_from (max_identifier ve + 1) (appended_files ms chg))))"
  by (simp add: update_file_entries_def updated_lines_eq writelines_def)

lemma digit_char_props:
  assumes "d < 10"
  shows "isdigit (digit_char d)" and "digit_value (digit_char d) = d" and "\<not> isspace (digit_char d)"
    and "digit_char d \<noteq> newline"
proof -
  from assms have "d \<in> {0, 1, 2, 3, 4, 5, 6, 7, 8, 9}" by auto
  then show "isdigit (digit_char d)" and "digit_value (digit_char d) = d"
    and "\<not> isspace (digit_char d)" and "digit_char d \<noteq> newline"
    by (auto simp add: digit_char_def isdigit_def digit_value_def isspace_def)
qed

lemma str_nat_digits: "\<forall>c\<in>set (str_nat n). isdigit c \<and> \<not> isspace c \<and> c \<noteq> newline"
proof (induction n rule: str_nat.induct)
  case (1 n)
  show ?case
  proof (cases "n < 10")
    case True
    then show ?thesis by (simp add: str_nat.simps [of n] digit_char_props)
  next
    case False
    have "n mod 10 < 10" by simp
    with False 1 show ?thesis by (simp add: str_nat.simps [of n] digit_char_props)
  qed
qed

lemma str_nat_not_Nil: "str_nat n \<noteq> []"
  by (simp add: str_nat.simps [of n])

lemma parse_digits_all_digits:
  "\<forall>c\<in>set ds. isdigit c \<Longrightarrow>
     parse_digits acc ds = Some (foldl (\<lambda>a c. 10 * a + digit_value c) acc ds)"
  by (induction ds arbitrary: acc) simp_all

lemma parse_nat_all_digits:
  "ds \<noteq> [] \<Longrightarrow> \<forall>c\<in>set ds. isdigit c \<Longrightarrow>
     parse_nat ds = Some (foldl (\<lambda>a c. 10 * a + digit_value c) 0 ds)"
  by (cases ds) (simp_all add: parse_nat_def parse_digits_all_digits)

lemma foldl_str_nat: "foldl (\<lambda>a c. 10 * a + digit_value c) 0 (str_nat n) = n"
proof (induction n rule: str_nat.induct)
  case (1 n)
  show ?case
  proof (cases "n < 10")
    case True
    then show ?thesis by (simp add: str_nat.simps [of n] digit_char_props)
  next
    case False
    have "n mod 10 < 10" by simp
    with False 1 show ?thesis by (simp add: str_nat.simps [of n] digit_char_props)
  qed
qed

lemma parse_nat_str_nat: "parse_nat (str_nat n) = Some n"
  using parse_nat_all_digits [of "str_nat n"] str_nat_digits [of n]
  by (simp add: str_nat_not_Nil foldl_str_nat)

lemma isdigit_not_sign: "isdigit c \<Longrightarrow> c \<noteq> CHR ''-'' \<and> c \<noteq> CHR ''+''"
  by (auto simp add: isdigit_def)

lemma int_strip_id:
  assumes "s \<noteq> []" "\<not> int_isspace (hd s)" "\<not> int_isspace (last s)"
  shows "int_strip s = s"
proof -
  from assms have "dropWhile int_isspace s = s" by (cases s) auto
  moreover from assms have "dropWhile int_isspace (rev s) = rev s"
    by (cases s rule: rev_cases) auto
  ultimately show ?thesis by (simp add: int_strip_def)
qed

lemma isdigit_not_int_isspace: "isdigit c \<Longrightarrow> \<not> int_isspace c"
  by (auto simp add: isdigit_def int_isspace_def)

lemma filter_isdigit_str_nat: "filter isdigit (str_nat n) = str_nat n"
  using str_nat_digits [of n] by (simp add: filter_id_conv)

lemma py_int_py_str:
  assumes "length (str_nat (nat \<bar>n\<bar>)) \<le> max_str_digits"
  shows "py_int (py_str n) = Some n"
proof (cases "n < 0")
  case True
  let ?s = "CHR ''-'' # str_nat (nat (- n))"
  have "\<not> int_isspace (last ?s)"
    using str_nat_digits [of "nat (- n)"] str_nat_not_Nil [of "nat (- n)"]
    by (simp add: last_in_set isdigit_not_int_isspace)
  moreover have "\<not> int_isspace (hd ?s)" by (simp add: int_isspace_def)
  ultimately have "int_strip ?s = ?s" by (intro int_strip_id) simp_all
  moreover from True assms have "\<not> max_str_digits < length (filter isdigit (str_nat (nat (- n))))"
    by (simp add: filter_isdigit_str_nat)
  ultimately show ?thesis using True by (simp add: py_int_def py_str_def parse_nat_str_nat)
next
  case False
  let ?s = "str_nat (nat n)"
  have ne: "?s \<noteq> []" by (rule str_nat_not_Nil)
  then have "\<not> int_isspace (hd ?s)" "\<not> int_isspace (last ?s)" "isdigit (hd ?s)"
    using str_nat_digits [of "nat n"] by (simp_all add: hd_in_set last_in_set isdigit_not_int_isspace)
  with ne have s: "int_strip ?s = ?s" and sg: "hd ?s \<noteq> CHR ''-''" "hd ?s \<noteq> CHR ''+''"
    by (simp_all add: int_strip_id isdigit_not_sign)
  obtain c cs where c: "?s = c # cs" using ne by (cases ?s) auto
  with sg have "c \<noteq> CHR ''-''" "c \<noteq> CHR ''+''" by simp_all
  moreover have "parse_nat (c # cs) = Some (nat n)" using parse_nat_str_nat [of "nat n"] c by simp
  moreover from False assms have "\<not> max_str_digits < length (filter isdigit (c # cs))"
    unfolding c [symmetric] by (simp add: filter_isdigit_str_nat)
  ultimately show ?thesis using False s c by (simp add: py_int_def py_str_def)
qed

lemma py_str_no_newline: "newline \<notin> set (py_str n)"
  using str_nat_digits by (auto simp add: py_str_def)

lemma max_identifier_ge:
  assumes "e \<in> set ve"
  shows "the (py_int (fst e)) \<le> max_identifier ve"
proof -
  from assms have "ve \<noteq> []" by auto
  moreover have "the (py_int (fst e)) \<in> set (map (\<lambda>e. the (py_int (fst e))) ve)"
    using assms by auto
  ultimately show ?thesis by (simp add: max_identifier_def del: set_map)
qed

lemma added_files_eq: "added_files chg = map fst (filter (\<lambda>c. snd c = ''A'') chg)"
  by (induction chg) (auto simp add: added_files_def)

lemma modified_files_eq: "modified_files chg = {f. (f, ''M'') \<in> set chg}"
  by (induction chg) (auto simp add: modified_files_def)

lemma deleted_files_eq: "deleted_files chg = {f. (f, ''D'') \<in> set chg}"
  by (induction chg) (auto simp add: deleted_files_def)

lemma updated_lines_Inr:
  assumes "updated_lines ms content ve chg = Inr out"
  shows "\<forall>k\<in>set (map fst ve). py_int k \<noteq> None"
    and "\<forall>l\<in>set (readlines content). line_ok l"
    and "out = map (emit (last_occurrences_of ve chg)) (readlines content)
                @ entries_from (max_identifier ve + 1) (appended_files ms chg)"
    and "numbers_fit (max_identifier ve + 1) (appended_files ms chg)"
  using assms unfolding updated_lines_eq by (auto split: if_splits)

lemma set_basename: "set (basename p) \<subseteq> set p"
  using set_takeWhileD [of _ "\<lambda>c. c \<noteq> CHR ''/''" "rev p"] by (auto simp add: basename_def)

lemma set_after_sep: "set (tl (dropWhile P s)) \<subseteq> set s"
proof
  fix c assume "c \<in> set (tl (dropWhile P s))"
  then have "c \<in> set (dropWhile P s)" by (cases "dropWhile P s") auto
  then show "c \<in> set s" by (rule set_dropWhileD)
qed

lemma strip_line_no_newline:
  assumes "l \<in> set (readlines s)"
  shows "newline \<notin> set (strip l)"
proof -
  from assms lines_wf_readlines [of s] have ne: "l \<noteq> []" and bl: "newline \<notin> set (butlast l)"
    by (simp_all add: lines_wf_def)
  show ?thesis
  proof (cases "last l = newline")
    case True
    with ne have "l = butlast l @ [newline]" by (metis append_butlast_last_id)
    then have "strip l = strip (butlast l)"
      using strip_append_spaces [of "[newline]" "butlast l"] by (simp add: isspace_def)
    with bl set_strip [of "butlast l"] show ?thesis by auto
  next
    case False
    from ne have "set l = set (butlast l) \<union> {last l}" by (cases l rule: rev_cases) auto
    with False bl have "newline \<notin> set l" by auto
    with set_strip [of l] show ?thesis by auto
  qed
qed

lemma get_changes_loop_filenames:
  assumes "get_changes_loop ls acc = Inr chg"
    and "\<forall>l\<in>set ls. newline \<notin> set (strip l)"
    and "\<forall>c\<in>set acc. newline \<notin> set (fst c)"
  shows "\<forall>c\<in>set chg. newline \<notin> set (fst c)"
  using assms
proof (induction ls arbitrary: acc)
  case Nil
  then show ?case by simp
next
  case (Cons l ls)
  from Cons.prems(2) have nl: "newline \<notin> set (strip l)" and rest: "\<forall>l\<in>set ls. newline \<notin> set (strip l)"
    by simp_all
  let ?f = "tl (dropWhile (\<lambda>c. c \<noteq> tab) (strip l))"
  let ?st = "takeWhile (\<lambda>c. c \<noteq> tab) (strip l)"
  have f: "newline \<notin> set (basename ?f)"
    using nl set_basename [of ?f] set_after_sep [of "\<lambda>c. c \<noteq> tab" "strip l"] by blast
  then have acc': "\<forall>c\<in>set (acc @ [(basename ?f, ?st)]). newline \<notin> set (fst c)"
    using Cons.prems(3) by simp
  from Cons.prems(1) have
    "get_changes_loop ls acc = Inr chg \<or> get_changes_loop ls (acc @ [(basename ?f, ?st)]) = Inr chg"
    by (simp add: Let_def unpack2_split1 split: if_splits)
  then show ?case
    using Cons.IH [OF _ rest Cons.prems(3)] Cons.IH [OF _ rest acc'] by blast
qed

lemma get_changes_filenames:
  assumes "get_changes report = Inr chg" and "c \<in> set chg"
  shows "newline \<notin> set (fst c)"
  using get_changes_loop_filenames [of "readlines report" "[]" chg] assms
  by (simp add: get_changes_def strip_line_no_newline)

lemma entry_line_props:
  assumes "newline \<notin> set f"
  shows "entry_line n f \<noteq> []" and "hd (entry_line n f) = newline"
    and "last (entry_line n f) \<noteq> newline" and "tl (entry_line n f) \<noteq> []"
proof -
  show "entry_line n f \<noteq> []" "hd (entry_line n f) = newline" "tl (entry_line n f) \<noteq> []"
    by (simp_all add: entry_line_def)
  show "last (entry_line n f) \<noteq> newline"
  proof (cases "f = []")
    case True
    then show ?thesis by (simp add: entry_line_def)
  next
    case False
    then have "last (entry_line n f) = last f" by (simp add: entry_line_def)
    with False assms show ?thesis by (metis last_in_set)
  qed
qed

lemma set_entries_from:
  "e \<in> set (entries_from n fs) \<Longrightarrow> \<exists>m f. e = entry_line m f \<and> f \<in> set fs"
proof (induction fs arbitrary: n)
  case Nil
  then show ?case by simp
next
  case (Cons g fs)
  from Cons.prems have "e = entry_line n g \<or> e \<in> set (entries_from (n + 1) fs)" by simp
  then show ?case
  proof
    assume "e = entry_line n g"
    then show ?thesis by auto
  next
    assume "e \<in> set (entries_from (n + 1) fs)"
    from Cons.IH [OF this] show ?thesis by auto
  qed
qed

lemma entries_from_Nil_iff: "entries_from n fs = [] \<longleftrightarrow> fs = []"
  by (cases fs) simp_all

lemma emit_last: "l \<noteq> [] \<Longrightarrow> emit lo l \<noteq> [] \<and> last (emit lo l) = last l \<and> set (butlast (emit lo l)) \<subseteq> insert CHR ''/'' (set (butlast l))"
  by (auto simp add: emit_def butlast_append)

lemma lines_wf_map_emit:
  assumes "lines_wf ls"
  shows "lines_wf (map (emit lo) ls)"
  using assms
proof (induction ls)
  case Nil
  then show ?case by simp
next
  case (Cons l ls)
  then have l: "l \<noteq> []" "newline \<notin> set (butlast l)" "ls \<noteq> [] \<longrightarrow> last l = newline"
    and wf: "lines_wf (map (emit lo) ls)"
    by (simp_all add: lines_wf_Cons)
  from emit_last [OF l(1), of lo] l(2) have "newline \<notin> set (butlast (emit lo l))" by auto
  with emit_last [OF l(1), of lo] l wf show ?case by (simp add: lines_wf_Cons)
qed

lemma last_concat_snoc: "e \<noteq> [] \<Longrightarrow> last (concat (es @ [e])) = last e"
  by simp

lemma last_occurrences_of_no_changes: "last_occurrences_of ve [] f = None"
  by (simp add: last_occurrences_of_def last_occurrences_eq deleted_files_def modified_files_def)

lemma update_without_changes:
  assumes "update_file_entries [] content ve [] = Inr out"
  shows "out = content"
proof -
  have "emit (last_occurrences_of ve []) l = l" for l
    by (simp add: emit_def rewritten_def last_occurrences_of_no_changes)
  then have "map (emit (last_occurrences_of ve [])) (readlines content) = readlines content"
    by (simp add: map_idI)
  with assms show ?thesis
    unfolding update_file_entries_eq
    by (simp add: appended_files_def added_files_def concat_readlines split: if_splits)
qed

lemma world_after_snoc:
  "world_after runner (cmds @ [args]) w = snd (runner args (world_after runner cmds w))"
  by (simp add: world_after_def)

lemma world_after_Cons:
  "world_after runner (args # cmds) w = world_after runner cmds (snd (runner args w))"
  by (simp add: world_after_def)

lemma run_commands_first_failure:
  assumes "\<forall>k<length pre. fst (runner (pre ! k) (world_after runner (take k pre) w)) = Exited 0"
    and "fst (runner c (world_after runner pre w)) = Exited rc" and "rc \<noteq> 0"
  shows "run_commands runner (pre @ c # post) w executed
           = (Some (CalledProcessError c rc), world_after runner (pre @ [c]) w, executed @ pre @ [c])"
  using assms
proof (induction pre arbitrary: w executed)
  case Nil
  then show ?case
    by (cases "runner c w") (simp add: subprocess_run_def world_after_def)
next
  case (Cons a pre)
  from Cons.prems(1) [rule_format, of 0] have a: "fst (runner a w) = Exited 0"
    by (simp add: world_after_def)
  let ?w = "snd (runner a w)"
  have "\<forall>k<length pre. fst (runner (pre ! k) (world_after runner (take k pre) ?w)) = Exited 0"
  proof (intro allI impI)
    fix k assume "k < length pre"
    then have "Suc k < length (a # pre)" by simp
    from Cons.prems(1) [rule_format, OF this]
    show "fst (runner (pre ! k) (world_after runner (take k pre) ?w)) = Exited 0"
      by (simp add: world_after_Cons)
  qed
  moreover from Cons.prems(2) have "fst (runner c (world_after runner pre ?w)) = Exited rc"
    by (simp add: world_after_Cons)
  ultimately have "run_commands runner (pre @ c # post) ?w (executed @ [a])
      = (Some (CalledProcessError c rc), world_after runner (pre @ [c]) ?w, (executed @ [a]) @ pre @ [c])"
    using Cons.prems(3) by (rule Cons.IH)
  with a show ?case
    by (cases "runner a w") (simp add: subprocess_run_def world_after_Cons)
qed

lemma emit_last_occurrences:
  "emit (last_occurrences_of ve chg) l =
     (if \<not> is_comment l \<and> line_filename l \<in> deleted_files chg \<union> modified_files chg
          \<and> last_entry ve (line_filename l) = Some (line_num l)
      then ''//'' @ l else l)"
  by (simp add: emit_def rewritten_def last_occurrences_of_def last_occurrences_eq)

lemma last_entry_exists:
  "f \<in> snd ` set ve \<Longrightarrow> \<exists>k. last_entry ve f = Some k"
proof (induction ve rule: rev_induct)
  case Nil
  then show ?case by simp
next
  case (snoc e ve)
  obtain k v where e: "e = (k, v)" by (cases e)
  show ?case
  proof (cases "v = f")
    case True
    with e show ?thesis by (simp add: last_entry_snoc)
  next
    case False
    with snoc.prems e have "f \<in> snd ` set ve" by auto
    with snoc.IH False e show ?thesis by (simp add: last_entry_snoc)
  qed
qed

lemma map_filter_decomp:
  "map g (filter P xs) = pre @ [y] @ post \<Longrightarrow>
     \<exists>b x a. xs = b @ [x] @ a \<and> P x \<and> g x = y
       \<and> map g (filter P b) = pre \<and> map g (filter P a) = post"
proof (induction xs arbitrary: pre)
  case Nil
  then show ?case by simp
next
  case (Cons x xs)
  show ?case
  proof (cases "P x")
    case False
    with Cons.prems have "map g (filter P xs) = pre @ [y] @ post" by simp
    from Cons.IH [OF this] obtain b x' a where
      "xs = b @ [x'] @ a" "P x'" "g x' = y" "map g (filter P b) = pre" "map g (filter P a) = post"
      by blast
    with False have "x # xs = (x # b) @ [x'] @ a \<and> P x' \<and> g x' = y
       \<and> map g (filter P (x # b)) = pre \<and> map g (filter P a) = post" by simp
    then show ?thesis by blast
  next
    case True
    with Cons.prems have eq: "g x # map g (filter P xs) = pre @ [y] @ post" by simp
    show ?thesis
    proof (cases pre)
      case Nil
      with eq have "g x = y" "map g (filter P xs) = post" by simp_all
      with True Nil have "x # xs = [] @ [x] @ xs \<and> P x \<and> g x = y
         \<and> map g (filter P []) = pre \<and> map g (filter P xs) = post" by simp
      then show ?thesis by blast
    next
      case (Cons z pre')
      with eq have z: "z = g x" and "map g (filter P xs) = pre' @ [y] @ post" by simp_all
      from Cons.IH [OF this(2)] obtain b x' a where
        "xs = b @ [x'] @ a" "P x'" "g x' = y" "map g (filter P b) = pre'" "map g (filter P a) = post"
        by blast
      with True z Cons have "x # xs = (x # b) @ [x'] @ a \<and> P x' \<and> g x' = y
         \<and> map g (filter P (x # b)) = pre \<and> map g (filter P a) = post" by simp
      then show ?thesis by blast
    qed
  qed
qed

lemma current_patchfile_entries:
  assumes "current_patchfile manifest = Inr current"
    and "distinct (map fst (manifest_entries manifest))"
  shows "current = manifest_entries manifest"
proof -
  have fold: "foldl (\<lambda>d l. dict_set d (raw_num l) (raw_filename l)) []
                (filter (\<lambda>l. \<not> is_comment l) (readlines manifest))
            = foldl (\<lambda>d e. dict_set d (fst e) (snd e)) [] (manifest_entries manifest)"
    by (simp add: manifest_entries_def foldl_map)
  from assms(1) have "current = foldl (\<lambda>d e. dict_set d (fst e) (snd e)) [] (manifest_entries manifest)"
    unfolding current_patchfile_def current_patchfile_loop_eq fold
    by (simp split: if_splits)
  with dict_of_entries(3) [OF assms(2)] show ?thesis by simp
qed

lemma last_occurrence_in_lines:
  fixes lines :: "string list"
  defines "g \<equiv> \<lambda>l. (line_num l, line_filename l)"
  assumes ve: "ve = map g (filter (\<lambda>l. \<not> is_comment l) lines)"
    and dist: "distinct (map fst ve)"
    and last: "last_entry ve f = Some k"
  shows "\<exists>p<length lines. occurrence_of f (lines ! p) \<and> line_num (lines ! p) = k
           \<and> (\<forall>i<length lines. i \<noteq> p \<and> occurrence_of f (lines ! i) \<longrightarrow>
                 i < p \<and> line_num (lines ! i) \<noteq> k
                 \<and> (sorted_wrt (<) (map (\<lambda>e. the (py_int (fst e))) ve) \<longrightarrow>
                      the (py_int (line_num (lines ! i))) < the (py_int k)))"
proof -
  let ?P = "\<lambda>l. \<not> is_comment l"
  from last obtain pre post where dec: "ve = pre @ [(k, f)] @ post" and nin: "f \<notin> snd ` set post"
    unfolding last_entry_Some_iff by blast
  with ve have "map g (filter ?P lines) = pre @ [(k, f)] @ post" by simp
  from map_filter_decomp [OF this] obtain b x a where
    lines: "lines = b @ [x] @ a" and x: "?P x" "g x = (k, f)"
    and pre: "map g (filter ?P b) = pre" and post: "map g (filter ?P a) = post"
    by blast
  let ?p = "length b"
  have p: "?p < length lines" and xp: "lines ! ?p = x" by (simp_all add: lines)
  have occ: "occurrence_of f x" and num: "line_num x = k"
    using x by (simp_all add: occurrence_of_def g_def)
  have others: "i < ?p \<and> line_num (lines ! i) \<noteq> k
      \<and> (sorted_wrt (<) (map (\<lambda>e. the (py_int (fst e))) ve) \<longrightarrow>
            the (py_int (line_num (lines ! i))) < the (py_int k))"
    if i: "i < length lines" "i \<noteq> ?p" and oi: "occurrence_of f (lines ! i)" for i
  proof (cases "i < ?p")
    case False
    with i have gt: "?p < i" by simp
    with i have "lines ! i = a ! (i - Suc ?p)" by (simp add: lines nth_append nth_Cons')
    moreover from gt i have "i - Suc ?p < length a" by (simp add: lines)
    ultimately have "lines ! i \<in> set a" by simp
    with oi have "g (lines ! i) \<in> set (map g (filter ?P a))"
      by (simp add: occurrence_of_def)
    with post oi have "(line_num (lines ! i), f) \<in> set post"
      by (simp add: g_def occurrence_of_def)
    with nin show ?thesis by force
  next
    case True
    then have "lines ! i = b ! i" by (simp add: lines nth_append)
    with True have "lines ! i \<in> set b" by simp
    with oi have "g (lines ! i) \<in> set (map g (filter ?P b))"
      by (simp add: occurrence_of_def)
    with pre oi have mem: "(line_num (lines ! i), f) \<in> set pre"
      by (simp add: g_def occurrence_of_def)
    from dist dec have "k \<notin> fst ` set pre" by auto
    with mem have ne: "line_num (lines ! i) \<noteq> k" by force
    have "the (py_int (line_num (lines ! i))) < the (py_int k)"
      if "sorted_wrt (<) (map (\<lambda>e. the (py_int (fst e))) ve)"
    proof -
      from that have "\<forall>e\<in>set pre. the (py_int (fst e)) < the (py_int (fst (k, f)))"
        unfolding dec by (simp add: sorted_wrt_append)
      with mem show ?thesis by force
    qed
    with True ne show ?thesis by simp
  qed
  from p occ num others show ?thesis unfolding xp [symmetric] by blast
qed

lemma py_int_examples:
  "py_int [CHR 0x1F, CHR ''9''] = None \<and> py_int [CHR 0x85, CHR ''9''] = Some 9
   \<and> py_int '' 1_0 '' = Some 10 \<and> py_int ''-007'' = Some (- 7) \<and> py_int ''1__0'' = None"
  by code_simp

lemma get_changes_loop_eq:
  "get_changes_loop ls acc =
     (if \<exists>l\<in>set ls. strip l \<noteq> [] \<and> tab \<notin> set (strip l) then Inl ValueError_unpack
      else Inr (acc @ concat (map change_record (filter (\<lambda>l. strip l \<noteq> []) ls))))"
proof (induction ls arbitrary: acc)
  case Nil
  show ?case by simp
next
  case (Cons l ls)
  let ?f = "tl (dropWhile (\<lambda>c. c \<noteq> tab) (strip l))"
  let ?st = "takeWhile (\<lambda>c. c \<noteq> tab) (strip l)"
  have cr: "change_record l
      = (if endswith ?f ''.rgz'' \<or> endswith ?f ''.gpf'' then [(basename ?f, ?st)] else [])"
    by (simp add: change_record_def Let_def)
  show ?case
  proof (cases "strip l = []")
    case True
    then show ?thesis by (simp add: Cons.IH)
  next
    case False
    show ?thesis
    proof (cases "tab \<in> set (strip l)")
      case True
      with False show ?thesis by (auto simp add: Cons.IH Let_def unpack2_split1 cr)
    next
      case False
      with \<open>strip l \<noteq> []\<close> show ?thesis by (simp add: Let_def unpack2_split1)
    qed
  qed
qed

lemma run_commands_first_not_started:
  assumes "\<forall>k<length pre. fst (runner (pre ! k) (world_after runner (take k pre) w)) = Exited 0"
    and "fst (runner c (world_after runner pre w)) = Not_started"
  shows "run_commands runner (pre @ c # post) w executed
           = (Some (OSError c), world_after runner (pre @ [c]) w, executed @ pre @ [c])"
  using assms
proof (induction pre arbitrary: w executed)
  case Nil
  then show ?case
    by (cases "runner c w") (simp add: subprocess_run_def world_after_def)
next
  case (Cons a pre)
  from Cons.prems(1) [rule_format, of 0] have a: "fst (runner a w) = Exited 0"
    by (simp add: world_after_def)
  let ?w = "snd (runner a w)"
  have "\<forall>k<length pre. fst (runner (pre ! k) (world_after runner (take k pre) ?w)) = Exited 0"
  proof (intro allI impI)
    fix k assume "k < length pre"
    then have "Suc k < length (a # pre)" by simp
    from Cons.prems(1) [rule_format, OF this]
    show "fst (runner (pre ! k) (world_after runner (take k pre) ?w)) = Exited 0"
      by (simp add: world_after_Cons)
  qed
  moreover from Cons.prems(2) have "fst (runner c (world_after runner pre ?w)) = Not_started"
    by (simp add: world_after_Cons)
  ultimately have "run_commands runner (pre @ c # post) ?w (executed @ [a])
      = (Some (OSError c), world_after runner (pre @ [c]) ?w, (executed @ [a]) @ pre @ [c])"
    by (rule Cons.IH)
  with a show ?case
    by (cases "runner a w") (simp add: subprocess_run_def world_after_Cons)
qed

lemma run_commands_all_succeed:
  assumes "\<forall>k<length cmds. fst (runner (cmds ! k) (world_after runner (take k cmds) w)) = Exited 0"
  shows "run_commands runner cmds w executed = (None, world_after runner cmds w, executed @ cmds)"
  using assms
proof (induction cmds arbitrary: w executed)
  case Nil
  show ?case by (simp add: world_after_def)
next
  case (Cons a cmds)
  from Cons.prems [rule_format, of 0] have a: "fst (runner a w) = Exited 0"
    by (simp add: world_after_def)
  let ?w = "snd (runner a w)"
  have "\<forall>k<length cmds. fst (runner (cmds ! k) (world_after runner (take k cmds) ?w)) = Exited 0"
  proof (intro allI impI)
    fix k assume "k < length cmds"
    then have "Suc k < length (a # cmds)" by simp
    from Cons.prems [rule_format, OF this]
    show "fst (runner (cmds ! k) (world_after runner (take k cmds) ?w)) = Exited 0"
      by (simp add: world_after_Cons)
  qed
  then have "run_commands runner cmds ?w (executed @ [a])
      = (None, world_after runner cmds ?w, (executed @ [a]) @ cmds)"
    by (rule Cons.IH)
  with a show ?case
    by (cases "runner a w") (simp add: subprocess_run_def world_after_Cons)
qed

section \<open>The scenario of the specification\<close>

text \<open>
  Claim C2. The manifest holds the lines \<open>1 a.rgz\<close> and \<open>2 b.gpf\<close>; the change report says
  that \<open>path/a.rgz\<close> was modified and \<open>path/c.rgz\<close> added. The two readers return the change
  records \<open>(a.rgz, M)\<close>, \<open>(c.rgz, A)\<close> and the mapping \<open>1 \<mapsto> a.rgz\<close>, \<open>2 \<mapsto> b.gpf\<close>, and for
  every order of iteration of the set of modified filenames (there is one) the updater
  writes the lines \<open>//1 a.rgz\<close>, \<open>2 b.gpf\<close>, \<open>3 c.rgz\<close>, \<open>4 a.rgz\<close>, in this order.
\<close>

theorem scenario_modified_and_added:
  assumes "set_iteration ms (modified_files [(''a.rgz'', ''M''), (''c.rgz'', ''A'')])"
  shows "get_changes (''M'' @ [tab] @ ''path/a.rgz'' @ [newline] @ ''A'' @ [tab] @ ''path/c.rgz'' @ [newline])
           = Inr [(''a.rgz'', ''M''), (''c.rgz'', ''A'')]
       \<and> current_patchfile ''1 a.rgz\<newline>2 b.gpf'' = Inr [(''1'', ''a.rgz''), (''2'', ''b.gpf'')]
       \<and> update_file_entries ms ''1 a.rgz\<newline>2 b.gpf'' [(''1'', ''a.rgz''), (''2'', ''b.gpf'')]
             [(''a.rgz'', ''M''), (''c.rgz'', ''A'')]
           = Inr ''//1 a.rgz\<newline>2 b.gpf\<newline>3 c.rgz\<newline>4 a.rgz''
       \<and> readlines ''//1 a.rgz\<newline>2 b.gpf\<newline>3 c.rgz\<newline>4 a.rgz''
           = [''//1 a.rgz\<newline>'', ''2 b.gpf\<newline>'', ''3 c.rgz\<newline>'', ''4 a.rgz'']"
proof -
  from assms have "distinct ms" and "set ms = {''a.rgz''}"
    by (simp_all add: set_iteration_def modified_files_def)
  then have ms: "ms = [''a.rgz'']"
    by (cases ms) (auto simp: subset_singleton_iff)
  have "get_changes (''M'' @ [tab] @ ''path/a.rgz'' @ [newline] @ ''A'' @ [tab] @ ''path/c.rgz'' @ [newline])
           = Inr [(''a.rgz'', ''M''), (''c.rgz'', ''A'')]"
    by code_simp
  moreover have "current_patchfile ''1 a.rgz\<newline>2 b.gpf'' = Inr [(''1'', ''a.rgz''), (''2'', ''b.gpf'')]"
    by code_simp
  moreover have "update_file_entries [''a.rgz''] ''1 a.rgz\<newline>2 b.gpf''
             [(''1'', ''a.rgz''), (''2'', ''b.gpf'')] [(''a.rgz'', ''M''), (''c.rgz'', ''A'')]
           = Inr ''//1 a.rgz\<newline>2 b.gpf\<newline>3 c.rgz\<newline>4 a.rgz''"
    by code_simp
  moreover have "readlines ''//1 a.rgz\<newline>2 b.gpf\<newline>3 c.rgz\<newline>4 a.rgz''
           = [''//1 a.rgz\<newline>'', ''2 b.gpf\<newline>'', ''3 c.rgz\<newline>'', ''4 a.rgz'']"
    by code_simp
  ultimately show ?thesis by (simp only: ms simp_thms)
qed

theorem scenario_modified_and_added_witness:
  "set_iteration [''a.rgz''] (modified_files [(''a.rgz'', ''M''), (''c.rgz'', ''A'')])
   \<and> update_file_entries [''a.rgz''] ''1 a.rgz\<newline>2 b.gpf'' [(''1'', ''a.rgz''), (''2'', ''b.gpf'')]
             [(''a.rgz'', ''M''), (''c.rgz'', ''A'')]
           = Inr ''//1 a.rgz\<newline>2 b.gpf\<newline>3 c.rgz\<newline>4 a.rgz''"
proof -
  have h: "set_iteration [''a.rgz''] (modified_files [(''a.rgz'', ''M''), (''c.rgz'', ''A'')])"
    by (simp add: set_iteration_def modified_files_def)
  from scenario_modified_and_added [OF h] h show ?thesis by blast
qed

section \<open>The change-report reader\<close>

text \<open>
  Claim C6. The change-report reader passes over the lines that are empty after stripping:
  it returns what its loop returns on the other lines alone, it returns the empty list for
  a report of blank lines only, and when every line that is not blank holds a tab after
  stripping it returns the records of the lines that are not blank, in their order. When a
  line that is not blank holds no tab, the reader raises the \<open>ValueError\<close> of the two-target
  assignment; the line is not passed over.
\<close>

theorem get_changes_blank_lines_and_missing_tab:
  "get_changes report
     = get_changes_loop (filter (\<lambda>line. strip line \<noteq> []) (readlines report)) []
   \<and> ((\<forall>line\<in>set (readlines report). strip line = []) \<longrightarrow> get_changes report = Inr [])
   \<and> ((\<forall>line\<in>set (readlines report). strip line = [] \<or> tab \<in> set (strip line)) \<longrightarrow>
         get_changes report
           = Inr (concat (map change_record
                    (filter (\<lambda>line. strip line \<noteq> []) (readlines report)))))
   \<and> (\<forall>line\<in>set (readlines report). strip line \<noteq> [] \<and> tab \<notin> set line \<longrightarrow>
         get_changes report = Inl ValueError_unpack)"
proof (intro conjI ballI impI)
  show "get_changes report
     = get_changes_loop (filter (\<lambda>line. strip line \<noteq> []) (readlines report)) []"
    by (simp add: get_changes_def get_changes_loop_filter)
next
  assume "\<forall>line\<in>set (readlines report). strip line = []"
  then have "filter (\<lambda>line. strip line \<noteq> []) (readlines report) = []"
    by (simp add: filter_empty_conv)
  with \<open>\<forall>line\<in>set (readlines report). strip line = []\<close> show "get_changes report = Inr []"
    by (simp add: get_changes_def get_changes_loop_eq)
next
  assume "\<forall>line\<in>set (readlines report). strip line = [] \<or> tab \<in> set (strip line)"
  then have "\<not> (\<exists>l\<in>set (readlines report). strip l \<noteq> [] \<and> tab \<notin> set (strip l))" by blast
  then show "get_changes report
           = Inr (concat (map change_record
                    (filter (\<lambda>line. strip line \<noteq> []) (readlines report))))"
    by (simp add: get_changes_def get_changes_loop_eq)
next
  fix line
  assume mem: "line \<in> set (readlines report)" and bad: "strip line \<noteq> [] \<and> tab \<notin> set line"
  from bad have "tab \<notin> set (strip line)" using set_strip [of line] by blast
  with mem bad have "\<exists>l\<in>set (readlines report). strip l \<noteq> [] \<and> tab \<notin> set (strip l)" by blast
  then show "get_changes report = Inl ValueError_unpack"
    unfolding get_changes_def by (rule get_changes_loop_error)
qed

theorem get_changes_blank_lines_and_missing_tab_witness:
  "readlines (''\<newline>A'' @ [tab] @ ''path/c.rgz\<newline>  \<newline>M'' @ [tab] @ ''notes.txt\<newline>'')
     = [''\<newline>'', ''A'' @ [tab] @ ''path/c.rgz\<newline>'', ''  \<newline>'', ''M'' @ [tab] @ ''notes.txt\<newline>'']
   \<and> strip ''\<newline>'' = [] \<and> strip ''  \<newline>'' = []
   \<and> tab \<in> set (strip (''A'' @ [tab] @ ''path/c.rgz\<newline>''))
   \<and> tab \<in> set (strip (''M'' @ [tab] @ ''notes.txt\<newline>''))
   \<and> get_changes (''\<newline>A'' @ [tab] @ ''path/c.rgz\<newline>  \<newline>M'' @ [tab] @ ''notes.txt\<newline>'')
       = Inr [(''c.rgz'', ''A'')]
   \<and> readlines ''\<newline>  \<newline>'' = [''\<newline>'', ''  \<newline>'']
   \<and> get_changes ''\<newline>  \<newline>'' = Inr []
   \<and> ''A x.rgz\<newline>'' \<in> set (readlines ''\<newline>A x.rgz\<newline>'')
   \<and> strip ''A x.rgz\<newline>'' \<noteq> [] \<and> tab \<notin> set ''A x.rgz\<newline>''
   \<and> get_changes ''\<newline>A x.rgz\<newline>'' = Inl ValueError_unpack"
proof -
  let ?good = "''\<newline>A'' @ [tab] @ ''path/c.rgz\<newline>  \<newline>M'' @ [tab] @ ''notes.txt\<newline>''"
  have ls: "readlines ?good
     = [''\<newline>'', ''A'' @ [tab] @ ''path/c.rgz\<newline>'', ''  \<newline>'', ''M'' @ [tab] @ ''notes.txt\<newline>'']"
    by simp
  have b1: "strip ''\<newline>'' = []" and b2: "strip ''  \<newline>'' = []"
    by (simp_all add: strip_def isspace_def)
  have t1: "tab \<in> set (strip (''A'' @ [tab] @ ''path/c.rgz\<newline>''))"
    and t2: "tab \<in> set (strip (''M'' @ [tab] @ ''notes.txt\<newline>''))"
    by (simp_all add: strip_def isspace_def)
  have ok: "\<forall>line\<in>set (readlines ?good). strip line = [] \<or> tab \<in> set (strip line)"
    unfolding ls using b1 b2 t1 t2 by simp
  have recs: "concat (map change_record (filter (\<lambda>line. strip line \<noteq> []) (readlines ?good)))
      = [(''c.rgz'', ''A'')]"
    by code_simp
  from get_changes_blank_lines_and_missing_tab [of ?good] ok
  have good: "get_changes ?good = Inr [(''c.rgz'', ''A'')]" unfolding recs by blast
  have ls2: "readlines ''\<newline>  \<newline>'' = [''\<newline>'', ''  \<newline>'']" by simp
  have "\<forall>line\<in>set (readlines ''\<newline>  \<newline>''). strip line = []"
    unfolding ls2 using b1 b2 by simp
  with get_changes_blank_lines_and_missing_tab [of "''\<newline>  \<newline>''"]
  have blank: "get_changes ''\<newline>  \<newline>'' = Inr []" by blast
  have mem: "''A x.rgz\<newline>'' \<in> set (readlines ''\<newline>A x.rgz\<newline>'')" by simp
  have ne: "strip ''A x.rgz\<newline>'' \<noteq> []" by (simp add: strip_def isspace_def)
  have nt: "tab \<notin> set ''A x.rgz\<newline>''" by simp
  from get_changes_blank_lines_and_missing_tab [of "''\<newline>A x.rgz\<newline>''"] mem ne nt
  have bad: "get_changes ''\<newline>A x.rgz\<newline>'' = Inl ValueError_unpack" by blast
  from ls b1 b2 t1 t2 good ls2 blank mem ne nt bad show ?thesis by (simp only: simp_thms)
qed

section \<open>The manifest reader\<close>

text \<open>
  Claim C7. The manifest reader passes over the comment lines: it returns what its loop
  returns on the other lines alone. When it returns a mapping, the keys are distinct and are
  the identifiers of the entries of the file in the order of their first occurrence, every
  identifier is mapped to the filename of its last entry, and when the identifiers of the
  file are distinct the mapping is the list of the entries in the order of the file. When a
  line that is no comment holds no space (blank or not), the reader raises the \<open>ValueError\<close>
  of the two-target assignment.
\<close>

theorem current_patchfile_comments_order_and_missing_space:
  "current_patchfile manifest
     = current_patchfile_loop
         (filter (\<lambda>line. \<not> startswith (strip line) ''//'') (readlines manifest)) []
   \<and> (\<forall>current. current_patchfile manifest = Inr current \<longrightarrow>
         map fst current = first_occurrences (map fst (manifest_entries manifest))
       \<and> distinct (map fst current)
       \<and> map_of current = map_of (rev (manifest_entries manifest))
       \<and> (distinct (map fst (manifest_entries manifest)) \<longrightarrow> current = manifest_entries manifest))
   \<and> (\<forall>line\<in>set (readlines manifest).
         \<not> startswith (strip line) ''//'' \<and> space \<notin> set line \<longrightarrow>
         current_patchfile manifest = Inl ValueError_unpack)"
proof (intro conjI allI ballI impI)
  show "current_patchfile manifest
     = current_patchfile_loop
         (filter (\<lambda>line. \<not> startswith (strip line) ''//'') (readlines manifest)) []"
    using current_patchfile_loop_filter [of "readlines manifest" "[]"]
    by (simp add: current_patchfile_def is_comment_def)
next
  fix line
  assume "line \<in> set (readlines manifest)"
    and "\<not> startswith (strip line) ''//'' \<and> space \<notin> set line"
  then have "\<exists>l\<in>set (readlines manifest). \<not> is_comment l \<and> space \<notin> set l"
    by (auto simp add: is_comment_def)
  then show "current_patchfile manifest = Inl ValueError_unpack"
    by (simp add: current_patchfile_def current_patchfile_loop_eq)
next
  fix current
  assume ok: "current_patchfile manifest = Inr current"
  have fold: "foldl (\<lambda>d l. dict_set d (raw_num l) (raw_filename l)) []
                (filter (\<lambda>l. \<not> is_comment l) (readlines manifest))
            = foldl (\<lambda>d e. dict_set d (fst e) (snd e)) [] (manifest_entries manifest)"
    by (simp add: manifest_entries_def foldl_map)
  from ok have cur: "current = foldl (\<lambda>d e. dict_set d (fst e) (snd e)) [] (manifest_entries manifest)"
    unfolding current_patchfile_def current_patchfile_loop_eq fold
    by (simp split: if_splits)
  show "map fst current = first_occurrences (map fst (manifest_entries manifest))"
    unfolding cur by (rule dict_of_entries(1))
  then show "distinct (map fst current)"
    by (simp add: distinct_first_occurrences)
  show "map_of current = map_of (rev (manifest_entries manifest))"
    unfolding cur by (rule dict_of_entries(2))
  show "current = manifest_entries manifest" if "distinct (map fst (manifest_entries manifest))"
    unfolding cur using that by (rule dict_of_entries(3))
qed

theorem current_patchfile_comments_order_and_missing_space_witness:
  "current_patchfile ''//7 old.rgz\<newline>1 a.rgz\<newline>2 b.gpf'' = Inr [(''1'', ''a.rgz''), (''2'', ''b.gpf'')]
   \<and> distinct (map fst (manifest_entries ''//7 old.rgz\<newline>1 a.rgz\<newline>2 b.gpf''))
   \<and> manifest_entries ''//7 old.rgz\<newline>1 a.rgz\<newline>2 b.gpf'' = [(''1'', ''a.rgz''), (''2'', ''b.gpf'')]
   \<and> ''broken\<newline>'' \<in> set (readlines ''1 a.rgz\<newline>broken\<newline>'')
   \<and> \<not> startswith (strip ''broken\<newline>'') ''//'' \<and> space \<notin> set ''broken\<newline>''
   \<and> current_patchfile ''1 a.rgz\<newline>broken\<newline>'' = Inl ValueError_unpack"
proof -
  have r: "current_patchfile ''//7 old.rgz\<newline>1 a.rgz\<newline>2 b.gpf'' = Inr [(''1'', ''a.rgz''), (''2'', ''b.gpf'')]"
    by code_simp
  have e: "manifest_entries ''//7 old.rgz\<newline>1 a.rgz\<newline>2 b.gpf'' = [(''1'', ''a.rgz''), (''2'', ''b.gpf'')]"
    by code_simp
  have d: "distinct (map fst (manifest_entries ''//7 old.rgz\<newline>1 a.rgz\<newline>2 b.gpf''))"
    by (simp add: e)
  have m: "''broken\<newline>'' \<in> set (readlines ''1 a.rgz\<newline>broken\<newline>'')" by simp
  have c: "\<not> startswith (strip ''broken\<newline>'') ''//''" by code_simp
  have s: "space \<notin> set ''broken\<newline>''" by simp
  from current_patchfile_comments_order_and_missing_space [of "''1 a.rgz\<newline>broken\<newline>''"] m c s
  have "current_patchfile ''1 a.rgz\<newline>broken\<newline>'' = Inl ValueError_unpack" by blast
  moreover from current_patchfile_comments_order_and_missing_space
      [of "''//7 old.rgz\<newline>1 a.rgz\<newline>2 b.gpf''"] r d
  have "[(''1'', ''a.rgz''), (''2'', ''b.gpf'')] = manifest_entries ''//7 old.rgz\<newline>1 a.rgz\<newline>2 b.gpf''"
    by blast
  ultimately show ?thesis using r d m c s by simp
qed

section \<open>Blank lines in the manifest\<close>

text \<open>
  Claim C9, as stated, fails: a line of whitespace that holds a space is split at that space
  by the manifest reader, which records the entry with the empty identifier and the empty
  filename and raises nothing.
\<close>

theorem whitespace_only_line_accepted_by_reader:
  "'' \<newline>'' \<in> set (readlines ''1 a.rgz\<newline> \<newline>2 b.gpf'') \<and> strip '' \<newline>'' = []
   \<and> current_patchfile ''1 a.rgz\<newline> \<newline>2 b.gpf''
       = Inr [(''1'', ''a.rgz''), ('''', ''''), (''2'', ''b.gpf'')]"
  by code_simp

text \<open>
  Claim C9, amended. When the manifest holds a line that is empty after stripping, the
  updater writes nothing: it raises the \<open>ValueError\<close> of the two-target assignment in its
  loop over the lines, unless a key of the mapping is no integer literal, in which case
  \<open>int\<close> has raised before the loop. The manifest reader raises the \<open>ValueError\<close> of the
  two-target assignment when that line holds no space.
\<close>

theorem blank_manifest_line_raises:
  "\<forall>line\<in>set (readlines manifest). strip line = [] \<longrightarrow>
     update_file_entries ms manifest valid_entries changes
       = Inl (if \<forall>k\<in>set (map fst valid_entries). py_int k \<noteq> None
              then ValueError_unpack else ValueError_int)
     \<and> (space \<notin> set line \<longrightarrow> current_patchfile manifest = Inl ValueError_unpack)"
proof (intro ballI impI conjI)
  fix line
  assume mem: "line \<in> set (readlines manifest)" and blank: "strip line = []"
  from blank have "\<not> line_ok line"
    by (simp add: line_ok_def is_comment_def startswith_def)
  with mem have "\<exists>l\<in>set (readlines manifest). \<not> line_ok l" by blast
  then show "update_file_entries ms manifest valid_entries changes
       = Inl (if \<forall>k\<in>set (map fst valid_entries). py_int k \<noteq> None
              then ValueError_unpack else ValueError_int)"
    by (simp add: update_file_entries_eq)
  assume nsp: "space \<notin> set line"
  from blank have "\<not> is_comment line" by (simp add: is_comment_def startswith_def)
  with nsp mem have "\<exists>l\<in>set (readlines manifest). \<not> is_comment l \<and> space \<notin> set l"
    by blast
  then show "current_patchfile manifest = Inl ValueError_unpack"
    by (simp add: current_patchfile_def current_patchfile_loop_eq)
qed

theorem blank_manifest_line_raises_witness:
  "''\<newline>'' \<in> set (readlines ''1 a.rgz\<newline>\<newline>2 c.rgz'') \<and> strip ''\<newline>'' = [] \<and> space \<notin> set ''\<newline>''
   \<and> py_int ''1'' = Some 1
   \<and> update_file_entries [] ''1 a.rgz\<newline>\<newline>2 c.rgz'' [(''1'', ''a.rgz'')] [] = Inl ValueError_unpack
   \<and> current_patchfile ''1 a.rgz\<newline>\<newline>2 c.rgz'' = Inl ValueError_unpack
   \<and> py_int [CHR 0x1F, CHR ''9''] = None
   \<and> update_file_entries [] ''1 a.rgz\<newline>\<newline>2 c.rgz'' [([CHR 0x1F, CHR ''9''], ''a.rgz'')] []
       = Inl ValueError_int
   \<and> update_file_entries [] ''1 a.rgz\<newline>2 c.rgz'' [(''1'', ''a.rgz'')] [] = Inr ''1 a.rgz\<newline>2 c.rgz''
   \<and> current_patchfile ''1 a.rgz\<newline>2 c.rgz'' = Inr [(''1'', ''a.rgz''), (''2'', ''c.rgz'')]"
proof -
  let ?m = "''1 a.rgz\<newline>\<newline>2 c.rgz''"
  have m: "''\<newline>'' \<in> set (readlines ?m)" by simp
  have b: "strip ''\<newline>'' = []" by (simp add: strip_def isspace_def)
  have s: "space \<notin> set ''\<newline>''" by simp
  have p1: "py_int ''1'' = Some 1" by code_simp
  have p2: "py_int [CHR 0x1F, CHR ''9''] = None" by code_simp
  from p1 have k1: "\<forall>k\<in>set (map fst [(''1'', ''a.rgz'')]). py_int k \<noteq> None" by simp
  from p2 have k2: "\<not> (\<forall>k\<in>set (map fst [([CHR 0x1F, CHR ''9''], ''a.rgz'')]). py_int k \<noteq> None)"
    by simp
  from blank_manifest_line_raises [of ?m "[]" "[(''1'', ''a.rgz'')]" "[]"] m b s k1
  have r1: "update_file_entries [] ?m [(''1'', ''a.rgz'')] [] = Inl ValueError_unpack"
    and r2: "current_patchfile ?m = Inl ValueError_unpack"
    by (simp_all del: readlines.simps set_simps)
  from blank_manifest_line_raises [of ?m "[]" "[([CHR 0x1F, CHR ''9''], ''a.rgz'')]" "[]"] m b k2
  have r3: "update_file_entries [] ?m [([CHR 0x1F, CHR ''9''], ''a.rgz'')] [] = Inl ValueError_int"
    by (simp del: readlines.simps set_simps)
  have c1: "update_file_entries [] ''1 a.rgz\<newline>2 c.rgz'' [(''1'', ''a.rgz'')] [] = Inr ''1 a.rgz\<newline>2 c.rgz''"
    by code_simp
  have c2: "current_patchfile ''1 a.rgz\<newline>2 c.rgz'' = Inr [(''1'', ''a.rgz''), (''2'', ''c.rgz'')]"
    by code_simp
  from m b s p1 r1 r2 p2 r3 c1 c2 show ?thesis by (simp only: simp_thms)
qed

section \<open>The appended entries\<close>

text \<open>
  Claim C3. In a run that writes the manifest, the filenames that receive a new entry are
  the filenames of the records with status \<open>A\<close>, one for each record, followed by the
  distinct filenames with status \<open>M\<close>, each once; a record with status \<open>D\<close> adds none, so
  the number of pieces written is the number of lines of the manifest, plus the number of
  \<open>A\<close> records, plus the number of distinct \<open>M\<close> filenames. The entry at position \<open>k\<close>
  (from 0) of the appended ones is the newline, the decimal text of the greatest identifier
  of the mapping (0 for the empty mapping) plus \<open>k + 1\<close>, a space and the filename; that
  text reads back as that integer, and every key of the mapping is an integer that does
  not exceed the greatest identifier, so no appended identifier is one of the mapping.
\<close>

theorem appended_entries_count_and_identifiers:
  assumes "set_iteration ms (modified_files changes)"
    and "updated_lines ms manifest valid_entries changes = Inr out"
  shows "appended_files ms changes = map fst (filter (\<lambda>c. snd c = ''A'') changes) @ ms
       \<and> distinct ms \<and> set ms = {f. (f, ''M'') \<in> set changes}
       \<and> length out = length (readlines manifest)
            + length (filter (\<lambda>c. snd c = ''A'') changes) + card {f. (f, ''M'') \<in> set changes}
       \<and> (\<forall>k<length (appended_files ms changes).
             out ! (length (readlines manifest) + k)
               = [newline] @ py_str (max_identifier valid_entries + 1 + int k) @ '' ''
                   @ appended_files ms changes ! k
           \<and> py_int (py_str (max_identifier valid_entries + 1 + int k))
               = Some (max_identifier valid_entries + 1 + int k))
       \<and> (\<forall>e\<in>set valid_entries. \<exists>n. py_int (fst e) = Some n \<and> n \<le> max_identifier valid_entries)
       \<and> max_identifier valid_entries
           = (if valid_entries = [] then 0
              else Max ((\<lambda>e. the (py_int (fst e))) ` set valid_entries))"
proof -
  let ?n = "length (readlines manifest)"
  let ?app = "appended_files ms changes"
  from assms(1) have ms: "distinct ms" "set ms = {f. (f, ''M'') \<in> set changes}"
    by (simp_all add: set_iteration_def modified_files_eq)
  have app: "?app = map fst (filter (\<lambda>c. snd c = ''A'') changes) @ ms"
    by (simp add: appended_files_def added_files_eq)
  note r = updated_lines_Inr [OF assms(2)]
  have card: "card {f. (f, ''M'') \<in> set changes} = length ms"
    using ms distinct_card [of ms] by simp
  have len: "length out = ?n + length (filter (\<lambda>c. snd c = ''A'') changes)
      + card {f. (f, ''M'') \<in> set changes}"
    by (simp add: r(3) length_entries_from app card)
  have nth: "out ! (?n + k) = [newline] @ py_str (max_identifier valid_entries + 1 + int k) @ '' '' @ ?app ! k"
    if "k < length ?app" for k
    using that by (simp add: r(3) nth_append nth_entries_from entry_line_def)
  have keys: "\<exists>n. py_int (fst e) = Some n \<and> n \<le> max_identifier valid_entries"
    if "e \<in> set valid_entries" for e
  proof -
    from that r(1) have "py_int (fst e) \<noteq> None" by simp
    then obtain n where n: "py_int (fst e) = Some n" by blast
    with max_identifier_ge [OF that] show ?thesis by simp
  qed
  have mx: "max_identifier valid_entries
           = (if valid_entries = [] then 0
              else Max ((\<lambda>e. the (py_int (fst e))) ` set valid_entries))"
    by (simp add: max_identifier_def)
  have readback: "py_int (py_str (max_identifier valid_entries + 1 + int k))
      = Some (max_identifier valid_entries + 1 + int k)" if "k < length ?app" for k
    using numbers_fit_nth [OF r(4) that] by (rule py_int_py_str)
  from app ms len nth keys mx readback show ?thesis by blast
qed

theorem appended_entries_count_and_identifiers_witness:
  "set_iteration [''a.rgz''] (modified_files [(''a.rgz'', ''M''), (''b.gpf'', ''D''), (''c.rgz'', ''A''), (''c.rgz'', ''A'')])
   \<and> updated_lines [''a.rgz''] ''1 a.rgz\<newline>2 b.gpf'' [(''1'', ''a.rgz''), (''2'', ''b.gpf'')]
        [(''a.rgz'', ''M''), (''b.gpf'', ''D''), (''c.rgz'', ''A''), (''c.rgz'', ''A'')]
      = Inr [''//1 a.rgz\<newline>'', ''//2 b.gpf'', ''\<newline>3 c.rgz'', ''\<newline>4 c.rgz'', ''\<newline>5 a.rgz'']
   \<and> length [''//1 a.rgz\<newline>'', ''//2 b.gpf'', ''\<newline>3 c.rgz'', ''\<newline>4 c.rgz'', ''\<newline>5 a.rgz'']
      = length (readlines ''1 a.rgz\<newline>2 b.gpf'')
        + length (filter (\<lambda>c. snd c = ''A'') [(''a.rgz'', ''M''), (''b.gpf'', ''D''), (''c.rgz'', ''A''), (''c.rgz'', ''A'')])
        + card {f. (f, ''M'') \<in> set [(''a.rgz'', ''M''), (''b.gpf'', ''D''), (''c.rgz'', ''A''), (''c.rgz'', ''A'')]}
   \<and> max_identifier [(''1'', ''a.rgz''), (''2'', ''b.gpf'')] = 2"
proof -
  let ?chg = "[(''a.rgz'', ''M''), (''b.gpf'', ''D''), (''c.rgz'', ''A''), (''c.rgz'', ''A'')]"
  have h1: "set_iteration [''a.rgz''] (modified_files ?chg)"
    by (simp add: set_iteration_def modified_files_def)
  have h2: "updated_lines [''a.rgz''] ''1 a.rgz\<newline>2 b.gpf'' [(''1'', ''a.rgz''), (''2'', ''b.gpf'')] ?chg
      = Inr [''//1 a.rgz\<newline>'', ''//2 b.gpf'', ''\<newline>3 c.rgz'', ''\<newline>4 c.rgz'', ''\<newline>5 a.rgz'']"
    by code_simp
  have h3: "max_identifier [(''1'', ''a.rgz''), (''2'', ''b.gpf'')] = 2"
    by code_simp
  from appended_entries_count_and_identifiers [OF h1 h2] h1 h2 h3 show ?thesis
    by (simp only: simp_thms)
qed

section \<open>The order of the output\<close>

text \<open>
  Claim C5, as stated, fails: the entries for the modified filenames are appended in the
  order in which the set \<open>modified_files\<close> is iterated, which the script does not tie to
  the order of the change records. With the records \<open>(a.rgz, M)\<close>, \<open>(b.rgz, M)\<close> and the
  iteration \<open>b.rgz\<close>, \<open>a.rgz\<close> of the set, the entry of \<open>b.rgz\<close> comes first.
\<close>

theorem modified_entries_follow_set_order:
  "set_iteration [''b.rgz'', ''a.rgz''] (modified_files [(''a.rgz'', ''M''), (''b.rgz'', ''M'')])
   \<and> updated_lines [''b.rgz'', ''a.rgz''] ''1 a.rgz\<newline>2 b.rgz''
        [(''1'', ''a.rgz''), (''2'', ''b.rgz'')] [(''a.rgz'', ''M''), (''b.rgz'', ''M'')]
      = Inr [''//1 a.rgz\<newline>'', ''//2 b.rgz'', ''\<newline>3 b.rgz'', ''\<newline>4 a.rgz'']
   \<and> encounter_order [(''a.rgz'', ''M''), (''b.rgz'', ''M'')] = [''a.rgz'', ''b.rgz'']
   \<and> [''\<newline>3 b.rgz'', ''\<newline>4 a.rgz'']
      \<noteq> entries_from 3 (encounter_order [(''a.rgz'', ''M''), (''b.rgz'', ''M'')])"
proof -
  have "set_iteration [''b.rgz'', ''a.rgz''] (modified_files [(''a.rgz'', ''M''), (''b.rgz'', ''M'')])"
    by (auto simp add: set_iteration_def modified_files_def)
  moreover have "updated_lines [''b.rgz'', ''a.rgz''] ''1 a.rgz\<newline>2 b.rgz''
        [(''1'', ''a.rgz''), (''2'', ''b.rgz'')] [(''a.rgz'', ''M''), (''b.rgz'', ''M'')]
      = Inr [''//1 a.rgz\<newline>'', ''//2 b.rgz'', ''\<newline>3 b.rgz'', ''\<newline>4 a.rgz'']"
    by code_simp
  moreover have "encounter_order [(''a.rgz'', ''M''), (''b.rgz'', ''M'')] = [''a.rgz'', ''b.rgz'']"
    by code_simp
  moreover have "[''\<newline>3 b.rgz'', ''\<newline>4 a.rgz'']
      \<noteq> entries_from 3 (encounter_order [(''a.rgz'', ''M''), (''b.rgz'', ''M'')])"
    by code_simp
  ultimately show ?thesis by (simp only: simp_thms)
qed

text \<open>
  Claim C5, amended. In a run that writes the manifest, every line of the manifest stays at
  its position, unchanged or with two slashes put before it; the new entries follow all of
  them: one for each record with status \<open>A\<close>, in the order of the records, then one for each
  distinct filename with status \<open>M\<close>, in the order of iteration of the set; each appended
  entry starts with a newline, followed by its identifier, a space and the filename.
\<close>

theorem output_order:
  assumes "set_iteration ms (modified_files changes)"
    and "updated_lines ms manifest valid_entries changes = Inr out"
  shows "length (readlines manifest) \<le> length out
       \<and> (\<forall>i<length (readlines manifest).
             out ! i = readlines manifest ! i \<or> out ! i = ''//'' @ readlines manifest ! i)
       \<and> drop (length (readlines manifest)) out
           = entries_from (max_identifier valid_entries + 1)
               (map fst (filter (\<lambda>c. snd c = ''A'') changes) @ ms)
       \<and> distinct ms \<and> set ms = {f. (f, ''M'') \<in> set changes}
       \<and> (\<forall>k<length (map fst (filter (\<lambda>c. snd c = ''A'') changes) @ ms).
             drop (length (readlines manifest)) out ! k
               = [newline] @ py_str (max_identifier valid_entries + 1 + int k) @ '' ''
                   @ (map fst (filter (\<lambda>c. snd c = ''A'') changes) @ ms) ! k)"
proof -
  let ?n = "length (readlines manifest)"
  let ?fs = "map fst (filter (\<lambda>c. snd c = ''A'') changes) @ ms"
  from assms(1) have ms: "distinct ms" "set ms = {f. (f, ''M'') \<in> set changes}"
    by (simp_all add: set_iteration_def modified_files_eq)
  have app: "appended_files ms changes = ?fs"
    by (simp add: appended_files_def added_files_eq)
  note r = updated_lines_Inr [OF assms(2)]
  have len: "?n \<le> length out" by (simp add: r(3))
  have keep: "out ! i = readlines manifest ! i \<or> out ! i = ''//'' @ readlines manifest ! i"
    if "i < ?n" for i
    using that by (simp add: r(3) nth_append emit_def)
  have dr: "drop ?n out = entries_from (max_identifier valid_entries + 1) ?fs"
    by (simp add: r(3) app)
  have nth: "drop ?n out ! k
      = [newline] @ py_str (max_identifier valid_entries + 1 + int k) @ '' '' @ ?fs ! k"
    if "k < length ?fs" for k
    unfolding dr using that nth_entries_from [of k ?fs] by (simp add: entry_line_def)
  from len keep dr ms nth show ?thesis by blast
qed

theorem output_order_witness:
  "set_iteration [''b.rgz'', ''a.rgz''] (modified_files [(''a.rgz'', ''M''), (''d.gpf'', ''A''), (''b.rgz'', ''M''), (''c.rgz'', ''A'')])
   \<and> updated_lines [''b.rgz'', ''a.rgz''] ''1 a.rgz\<newline>2 x.gpf''
        [(''1'', ''a.rgz''), (''2'', ''x.gpf'')]
        [(''a.rgz'', ''M''), (''d.gpf'', ''A''), (''b.rgz'', ''M''), (''c.rgz'', ''A'')]
      = Inr [''//1 a.rgz\<newline>'', ''2 x.gpf'', ''\<newline>3 d.gpf'', ''\<newline>4 c.rgz'', ''\<newline>5 b.rgz'', ''\<newline>6 a.rgz'']
   \<and> drop (length (readlines ''1 a.rgz\<newline>2 x.gpf''))
        [''//1 a.rgz\<newline>'', ''2 x.gpf'', ''\<newline>3 d.gpf'', ''\<newline>4 c.rgz'', ''\<newline>5 b.rgz'', ''\<newline>6 a.rgz'']
      = entries_from (max_identifier [(''1'', ''a.rgz''), (''2'', ''x.gpf'')] + 1)
          (map fst (filter (\<lambda>c. snd c = ''A'')
             [(''a.rgz'', ''M''), (''d.gpf'', ''A''), (''b.rgz'', ''M''), (''c.rgz'', ''A'')])
           @ [''b.rgz'', ''a.rgz''])"
proof -
  let ?chg = "[(''a.rgz'', ''M''), (''d.gpf'', ''A''), (''b.rgz'', ''M''), (''c.rgz'', ''A'')]"
  have h1: "set_iteration [''b.rgz'', ''a.rgz''] (modified_files ?chg)"
    by (auto simp add: set_iteration_def modified_files_def)
  have h2: "updated_lines [''b.rgz'', ''a.rgz''] ''1 a.rgz\<newline>2 x.gpf''
        [(''1'', ''a.rgz''), (''2'', ''x.gpf'')] ?chg
      = Inr [''//1 a.rgz\<newline>'', ''2 x.gpf'', ''\<newline>3 d.gpf'', ''\<newline>4 c.rgz'', ''\<newline>5 b.rgz'', ''\<newline>6 a.rgz'']"
    by code_simp
  from output_order [OF h1 h2] h1 h2 show ?thesis by (simp only: simp_thms)
qed

section \<open>Newlines around the appended entries\<close>

text \<open>
  Claim C10. The change records are those of the change-report reader. In a run that writes
  the manifest and appends at least one entry, every appended piece starts with a newline
  and does not end with one, so the text written does not end with a newline. When the
  text of the manifest ended with a newline, the lines of the text written are the lines
  of the manifest (as re-emitted), then a line that consists of the newline alone, then the
  lines of the appended entries.
\<close>

theorem appended_entries_newlines:
  assumes "get_changes report = Inr changes"
    and "set_iteration ms (modified_files changes)"
    and "updated_lines ms manifest valid_entries changes = Inr pieces"
    and "drop (length (readlines manifest)) pieces \<noteq> []"
  shows "update_file_entries ms manifest valid_entries changes = Inr (concat pieces)
       \<and> (\<forall>e\<in>set (drop (length (readlines manifest)) pieces).
             e \<noteq> [] \<and> hd e = newline \<and> last e \<noteq> newline)
       \<and> concat pieces \<noteq> [] \<and> last (concat pieces) \<noteq> newline
       \<and> (manifest \<noteq> [] \<and> last manifest = newline \<longrightarrow>
             tl (concat (drop (length (readlines manifest)) pieces)) \<noteq> []
           \<and> readlines (concat pieces)
               = take (length (readlines manifest)) pieces @ [[newline]]
                 @ readlines (tl (concat (drop (length (readlines manifest)) pieces))))"
proof -
  let ?lines = "readlines manifest"
  let ?n = "length ?lines"
  let ?A = "map (emit (last_occurrences_of valid_entries changes)) ?lines"
  let ?E = "entries_from (max_identifier valid_entries + 1) (appended_files ms changes)"
  note r = updated_lines_Inr [OF assms(3)]
  have tk: "take ?n pieces = ?A" and dr: "drop ?n pieces = ?E" by (simp_all add: r(3))
  from assms(2) have "set ms = modified_files changes" by (simp add: set_iteration_def)
  then have "set (appended_files ms changes) \<subseteq> fst ` set changes"
    by (auto simp add: appended_files_def added_files_eq modified_files_eq intro: rev_image_eqI)
  then have fn: "\<forall>f\<in>set (appended_files ms changes). newline \<notin> set f"
    using get_changes_filenames [OF assms(1)] by auto
  have E: "\<forall>e\<in>set ?E. e \<noteq> [] \<and> hd e = newline \<and> last e \<noteq> newline \<and> tl e \<noteq> []"
  proof
    fix e assume "e \<in> set ?E"
    from set_entries_from [OF this] obtain m f
      where "e = entry_line m f" and "f \<in> set (appended_files ms changes)" by blast
    with fn entry_line_props [of f m]
    show "e \<noteq> [] \<and> hd e = newline \<and> last e \<noteq> newline \<and> tl e \<noteq> []" by simp
  qed
  from assms(4) dr have Ene: "?E \<noteq> []" by simp
  then obtain E' e where Esn: "?E = E' @ [e]" by (cases ?E rule: rev_cases) auto
  with E have e: "e \<noteq> []" "last e \<noteq> newline" by simp_all
  from Ene obtain e1 E1 where Ecs: "?E = e1 # E1" by (cases ?E) auto
  with E obtain t where e1: "e1 = newline # t" "t \<noteq> []" by (cases e1) auto
  have cE: "concat ?E \<noteq> []" "last (concat ?E) \<noteq> newline"
    unfolding Esn using e by simp_all
  have wr: "update_file_entries ms manifest valid_entries changes = Inr (concat pieces)"
    by (simp add: update_file_entries_def assms(3) writelines_def)
  have cp: "concat pieces = concat ?A @ concat ?E" by (simp add: r(3))
  with cE have lastp: "concat pieces \<noteq> []" "last (concat pieces) \<noteq> newline" by simp_all
  have blank: "tl (concat ?E) \<noteq> [] \<and> readlines (concat pieces)
                 = ?A @ [[newline]] @ readlines (tl (concat ?E))"
    if m: "manifest \<noteq> []" "last manifest = newline"
  proof -
    from m have ends: "\<forall>l\<in>set ?lines. last l = newline" by (rule readlines_ends_newline)
    from m have lne: "?lines \<noteq> []" by (simp add: readlines_Nil_iff)
    have nel: "\<forall>l\<in>set ?lines. l \<noteq> []"
      using lines_wf_readlines [of manifest] by (simp add: lines_wf_def)
    have wfA: "lines_wf ?A" by (rule lines_wf_map_emit) (rule lines_wf_readlines)
    from lne obtain ls l where sn: "?lines = ls @ [l]" by (cases ?lines rule: rev_cases) auto
    with ends nel have l: "l \<noteq> []" "last l = newline" by simp_all
    let ?lo = "last_occurrences_of valid_entries changes"
    have "emit ?lo l \<noteq> []" "last (emit ?lo l) = newline"
      using emit_last [OF l(1), of ?lo] l(2) by simp_all
    then have "emit ?lo l = butlast (emit ?lo l) @ [newline]"
      by (metis append_butlast_last_id)
    then have "concat ?A = (concat (map (emit ?lo) ls) @ butlast (emit ?lo l)) @ [newline]"
      unfolding sn by simp
    then obtain a where a: "concat ?A = a @ [newline]" by blast
    have tlE: "tl (concat ?E) = t @ concat E1" and cE': "concat ?E = [newline] @ (t @ concat E1)"
      unfolding Ecs e1 by simp_all
    have "readlines (concat pieces) = readlines (a @ [newline] @ ([newline] @ (t @ concat E1)))"
      by (simp add: cp a cE')
    also have "\<dots> = readlines (a @ [newline]) @ readlines ([newline] @ (t @ concat E1))"
      by (rule readlines_split)
    also have "\<dots> = readlines (concat ?A) @ [[newline]] @ readlines (tl (concat ?E))"
      by (simp add: a tlE)
    also have "readlines (concat ?A) = ?A" using wfA by (rule readlines_concat)
    finally have "readlines (concat pieces) = ?A @ [[newline]] @ readlines (tl (concat ?E))" .
    moreover have "tl (concat ?E) \<noteq> []" using e1 by (simp add: tlE)
    ultimately show ?thesis by simp
  qed
  from wr E lastp blank show ?thesis
    unfolding tk dr by blast
qed

theorem appended_entries_newlines_witness:
  "get_changes (''A'' @ [tab] @ ''path/c.rgz'' @ [newline]) = Inr [(''c.rgz'', ''A'')]
   \<and> set_iteration [] (modified_files [(''c.rgz'', ''A'')])
   \<and> updated_lines [] ''1 a.rgz\<newline>'' [(''1'', ''a.rgz'')] [(''c.rgz'', ''A'')]
      = Inr [''1 a.rgz\<newline>'', ''\<newline>2 c.rgz'']
   \<and> drop (length (readlines ''1 a.rgz\<newline>'')) [''1 a.rgz\<newline>'', ''\<newline>2 c.rgz''] \<noteq> []
   \<and> ''1 a.rgz\<newline>'' \<noteq> [] \<and> last ''1 a.rgz\<newline>'' = newline
   \<and> update_file_entries [] ''1 a.rgz\<newline>'' [(''1'', ''a.rgz'')] [(''c.rgz'', ''A'')]
      = Inr ''1 a.rgz\<newline>\<newline>2 c.rgz''
   \<and> readlines ''1 a.rgz\<newline>\<newline>2 c.rgz'' = [''1 a.rgz\<newline>'', ''\<newline>'', ''2 c.rgz'']"
proof -
  have h1: "get_changes (''A'' @ [tab] @ ''path/c.rgz'' @ [newline]) = Inr [(''c.rgz'', ''A'')]"
    by code_simp
  have h2: "set_iteration [] (modified_files [(''c.rgz'', ''A'')])"
    by (simp add: set_iteration_def modified_files_def)
  have h3: "updated_lines [] ''1 a.rgz\<newline>'' [(''1'', ''a.rgz'')] [(''c.rgz'', ''A'')]
      = Inr [''1 a.rgz\<newline>'', ''\<newline>2 c.rgz'']"
    by code_simp
  have h4: "drop (length (readlines ''1 a.rgz\<newline>'')) [''1 a.rgz\<newline>'', ''\<newline>2 c.rgz''] \<noteq> []"
    by simp
  have h5: "''1 a.rgz\<newline>'' \<noteq> [] \<and> last ''1 a.rgz\<newline>'' = newline" by simp
  have c: "concat [''1 a.rgz\<newline>'', ''\<newline>2 c.rgz''] = ''1 a.rgz\<newline>\<newline>2 c.rgz''" by simp
  have r: "readlines ''1 a.rgz\<newline>\<newline>2 c.rgz'' = [''1 a.rgz\<newline>'', ''\<newline>'', ''2 c.rgz'']" by simp
  from appended_entries_newlines [OF h1 h2 h3 h4] h5
  have "update_file_entries [] ''1 a.rgz\<newline>'' [(''1'', ''a.rgz'')] [(''c.rgz'', ''A'')]
      = Inr ''1 a.rgz\<newline>\<newline>2 c.rgz''"
    unfolding c by blast
  with h1 h2 h3 h4 h5 r show ?thesis by (simp only: simp_thms)
qed

section \<open>A second run on the manifest that was written\<close>

text \<open>
  Claim C4. With no change records the updater, when it returns, writes back the text it
  read (\<open>update_without_changes\<close>). It does not return on every text that it has written:
  from the manifest \<open>1 a.rgz\<close> that ends with a newline and the added file \<open>c.rgz\<close> the script
  writes a text with an empty line before the new entry, and on that text both the manifest
  reader and the updater raise the \<open>ValueError\<close> of the two-target assignment. The same
  happens after an entry is added to the empty manifest.
\<close>

theorem updater_rejects_its_own_output:
  "run_update [] (''A'' @ [tab] @ ''path/c.rgz'' @ [newline]) ''1 a.rgz\<newline>''
     = Inr ''1 a.rgz\<newline>\<newline>2 c.rgz''
   \<and> current_patchfile ''1 a.rgz\<newline>\<newline>2 c.rgz'' = Inl ValueError_unpack
   \<and> run_update [] [] ''1 a.rgz\<newline>\<newline>2 c.rgz'' = Inl ValueError_unpack
   \<and> update_file_entries [] ''1 a.rgz\<newline>\<newline>2 c.rgz'' [(''1'', ''a.rgz''), (''2'', ''c.rgz'')] []
     = Inl ValueError_unpack
   \<and> run_update [] (''A'' @ [tab] @ ''path/c.rgz'' @ [newline]) [] = Inr ''\<newline>1 c.rgz''
   \<and> run_update [] [] ''\<newline>1 c.rgz'' = Inl ValueError_unpack"
  by code_simp

section \<open>The publisher\<close>

text \<open>
  Claim C8, as stated, fails: the \<open>except\<close> clause names \<open>subprocess.CalledProcessError\<close>
  alone. When a command cannot be started, as when there is no \<open>git\<close> to run,
  \<open>subprocess.run\<close> raises an \<open>OSError\<close>, which leaves the publisher; nothing is printed.
\<close>

theorem publisher_propagates_start_failure:
  "raised (commit_and_push_file runner_git_missing ''patch/patchlist/patch9.txt''
             default_commit_message ())
     = Some (OSError [''git'', ''config'', ''--global'', ''user.name'', ''github-actions''])
   \<and> printed (commit_and_push_file runner_git_missing ''patch/patchlist/patch9.txt''
                default_commit_message ()) = []
   \<and> commands_run (commit_and_push_file runner_git_missing ''patch/patchlist/patch9.txt''
                     default_commit_message ())
     = [[''git'', ''config'', ''--global'', ''user.name'', ''github-actions'']]"
  by (simp add: commit_and_push_file_def git_commands_def runner_git_missing_def
      subprocess_run_def)

text \<open>
  Claim C8, amended. No \<open>CalledProcessError\<close> leaves the publisher. When the commands before
  the \<open>i\<close>-th one exit with code zero and the \<open>i\<close>-th one exits with another code, the
  commands run are the first \<open>i + 1\<close> ones, so the later ones are not run, the publisher
  prints the error message for that failure and returns without an exception. When instead
  the \<open>i\<close>-th command cannot be started, the later ones are not run either, nothing is
  printed, and the \<open>OSError\<close> of that command leaves the publisher. When all commands exit
  with code zero, all five are run and the publisher prints the message of success.
\<close>

theorem publisher_catches_command_failure:
  "(\<forall>args rc. raised (commit_and_push_file runner file_path commit_message w)
                 \<noteq> Some (CalledProcessError args rc))
   \<and> (\<forall>i rc. i < length (git_commands file_path commit_message)
         \<and> (\<forall>k<i. fst (runner (git_commands file_path commit_message ! k)
                          (world_after runner (take k (git_commands file_path commit_message)) w))
                    = Exited 0)
         \<and> fst (runner (git_commands file_path commit_message ! i)
                  (world_after runner (take i (git_commands file_path commit_message)) w))
             = Exited rc
         \<and> rc \<noteq> 0
       \<longrightarrow> commands_run (commit_and_push_file runner file_path commit_message w)
             = take (Suc i) (git_commands file_path commit_message)
         \<and> printed (commit_and_push_file runner file_path commit_message w)
             = [Error_committing_and_pushing
                  (CalledProcessError (git_commands file_path commit_message ! i) rc)]
         \<and> raised (commit_and_push_file runner file_path commit_message w) = None)
   \<and> (\<forall>i. i < length (git_commands file_path commit_message)
         \<and> (\<forall>k<i. fst (runner (git_commands file_path commit_message ! k)
                          (world_after runner (take k (git_commands file_path commit_message)) w))
                    = Exited 0)
         \<and> fst (runner (git_commands file_path commit_message ! i)
                  (world_after runner (take i (git_commands file_path commit_message)) w))
             = Not_started
       \<longrightarrow> commands_run (commit_and_push_file runner file_path commit_message w)
             = take (Suc i) (git_commands file_path commit_message)
         \<and> printed (commit_and_push_file runner file_path commit_message w) = []
         \<and> raised (commit_and_push_file runner file_path commit_message w)
             = Some (OSError (git_commands file_path commit_message ! i)))
   \<and> ((\<forall>k<length (git_commands file_path commit_message).
          fst (runner (git_commands file_path commit_message ! k)
                 (world_after runner (take k (git_commands file_path commit_message)) w))
            = Exited 0)
       \<longrightarrow> commands_run (commit_and_push_file runner file_path commit_message w)
             = git_commands file_path commit_message
         \<and> printed (commit_and_push_file runner file_path commit_message w)
             = [Successfully_committed_and_pushed file_path]
         \<and> raised (commit_and_push_file runner file_path commit_message w) = None)"
proof (intro conjI allI impI)
  fix args rc
  show "raised (commit_and_push_file runner file_path commit_message w)
          \<noteq> Some (CalledProcessError args rc)"
    by (simp add: commit_and_push_file_def split: prod.splits option.splits exn.splits)
next
  fix i rc
  let ?cmds = "git_commands file_path commit_message"
  assume h: "i < length ?cmds
         \<and> (\<forall>k<i. fst (runner (?cmds ! k) (world_after runner (take k ?cmds) w)) = Exited 0)
         \<and> fst (runner (?cmds ! i) (world_after runner (take i ?cmds) w)) = Exited rc
         \<and> rc \<noteq> 0"
  then have i: "i < length ?cmds" by simp
  have split: "?cmds = take i ?cmds @ ?cmds ! i # drop (Suc i) ?cmds"
    using i by (simp add: id_take_nth_drop)
  have pre: "\<forall>k<length (take i ?cmds).
      fst (runner (take i ?cmds ! k) (world_after runner (take k (take i ?cmds)) w)) = Exited 0"
    using h by (simp add: min_def)
  have "run_commands runner (take i ?cmds @ ?cmds ! i # drop (Suc i) ?cmds) w []
      = (Some (CalledProcessError (?cmds ! i) rc),
         world_after runner (take i ?cmds @ [?cmds ! i]) w, [] @ take i ?cmds @ [?cmds ! i])"
    using pre h by (intro run_commands_first_failure) simp_all
  with split have run: "run_commands runner ?cmds w []
      = (Some (CalledProcessError (?cmds ! i) rc),
         world_after runner (take i ?cmds @ [?cmds ! i]) w, take i ?cmds @ [?cmds ! i])"
    by simp
  have tk: "take (Suc i) ?cmds = take i ?cmds @ [?cmds ! i]"
    using i by (simp add: take_Suc_conv_app_nth)
  show "commands_run (commit_and_push_file runner file_path commit_message w) = take (Suc i) ?cmds"
    and "printed (commit_and_push_file runner file_path commit_message w)
             = [Error_committing_and_pushing (CalledProcessError (?cmds ! i) rc)]"
    and "raised (commit_and_push_file runner file_path commit_message w) = None"
    by (simp_all add: commit_and_push_file_def run tk)
next
  fix i
  let ?cmds = "git_commands file_path commit_message"
  assume h: "i < length ?cmds
         \<and> (\<forall>k<i. fst (runner (?cmds ! k) (world_after runner (take k ?cmds) w)) = Exited 0)
         \<and> fst (runner (?cmds ! i) (world_after runner (take i ?cmds) w)) = Not_started"
  then have i: "i < length ?cmds" by simp
  have split: "?cmds = take i ?cmds @ ?cmds ! i # drop (Suc i) ?cmds"
    using i by (simp add: id_take_nth_drop)
  have pre: "\<forall>k<length (take i ?cmds).
      fst (runner (take i ?cmds ! k) (world_after runner (take k (take i ?cmds)) w)) = Exited 0"
    using h by (simp add: min_def)
  have "run_commands runner (take i ?cmds @ ?cmds ! i # drop (Suc i) ?cmds) w []
      = (Some (OSError (?cmds ! i)),
         world_after runner (take i ?cmds @ [?cmds ! i]) w, [] @ take i ?cmds @ [?cmds ! i])"
    using pre h by (intro run_commands_first_not_started) simp_all
  with split have run: "run_commands runner ?cmds w []
      = (Some (OSError (?cmds ! i)),
         world_after runner (take i ?cmds @ [?cmds ! i]) w, take i ?cmds @ [?cmds ! i])"
    by simp
  have tk: "take (Suc i) ?cmds = take i ?cmds @ [?cmds ! i]"
    using i by (simp add: take_Suc_conv_app_nth)
  show "commands_run (commit_and_push_file runner file_path commit_message w) = take (Suc i) ?cmds"
    and "printed (commit_and_push_file runner file_path commit_message w) = []"
    and "raised (commit_and_push_file runner file_path commit_message w)
             = Some (OSError (?cmds ! i))"
    by (simp_all add: commit_and_push_file_def run tk)
next
  let ?cmds = "git_commands file_path commit_message"
  assume "\<forall>k<length ?cmds. fst (runner (?cmds ! k) (world_after runner (take k ?cmds) w)) = Exited 0"
  then have run: "run_commands runner ?cmds w [] = (None, world_after runner ?cmds w, [] @ ?cmds)"
    by (rule run_commands_all_succeed)
  show "commands_run (commit_and_push_file runner file_path commit_message w) = ?cmds"
    and "printed (commit_and_push_file runner file_path commit_message w)
             = [Successfully_committed_and_pushed file_path]"
    and "raised (commit_and_push_file runner file_path commit_message w) = None"
    by (simp_all add: commit_and_push_file_def run)
qed

theorem publisher_catches_command_failure_witness:
  "(3::nat) < length (git_commands ''patch/patchlist/patch9.txt'' default_commit_message)
   \<and> fst (runner_commit_fails
            (git_commands ''patch/patchlist/patch9.txt'' default_commit_message ! 3)
            (world_after runner_commit_fails
               (take 3 (git_commands ''patch/patchlist/patch9.txt'' default_commit_message)) 0))
      = Exited 1
   \<and> commands_run (commit_and_push_file runner_commit_fails
        ''patch/patchlist/patch9.txt'' default_commit_message 0)
      = take 4 (git_commands ''patch/patchlist/patch9.txt'' default_commit_message)
   \<and> printed (commit_and_push_file runner_commit_fails
        ''patch/patchlist/patch9.txt'' default_commit_message 0)
      = [Error_committing_and_pushing
           (CalledProcessError [''git'', ''commit'', ''-m'', default_commit_message] 1)]
   \<and> raised (commit_and_push_file runner_commit_fails
        ''patch/patchlist/patch9.txt'' default_commit_message 0) = None
   \<and> fst (runner_git_missing
            (git_commands ''patch/patchlist/patch9.txt'' default_commit_message ! 0)
            (world_after runner_git_missing
               (take 0 (git_commands ''patch/patchlist/patch9.txt'' default_commit_message)) ()))
      = Not_started
   \<and> commands_run (commit_and_push_file runner_git_missing
        ''patch/patchlist/patch9.txt'' default_commit_message ())
      = take 1 (git_commands ''patch/patchlist/patch9.txt'' default_commit_message)
   \<and> raised (commit_and_push_file runner_git_missing
        ''patch/patchlist/patch9.txt'' default_commit_message ())
      = Some (OSError [''git'', ''config'', ''--global'', ''user.name'', ''github-actions''])
   \<and> commands_run (commit_and_push_file runner_succeeds
        ''patch/patchlist/patch9.txt'' default_commit_message ())
      = git_commands ''patch/patchlist/patch9.txt'' default_commit_message
   \<and> printed (commit_and_push_file runner_succeeds
        ''patch/patchlist/patch9.txt'' default_commit_message ())
      = [Successfully_committed_and_pushed ''patch/patchlist/patch9.txt'']
   \<and> raised (commit_and_push_file runner_succeeds
        ''patch/patchlist/patch9.txt'' default_commit_message ()) = None"
proof -
  let ?r = runner_commit_fails
  let ?cmds = "git_commands ''patch/patchlist/patch9.txt'' default_commit_message"
  have len: "(3::nat) < length ?cmds" by (simp add: git_commands_def)
  have nth3: "?cmds ! 3 = [''git'', ''commit'', ''-m'', default_commit_message]"
    by (simp add: git_commands_def)
  have nth0: "?cmds ! 0 = [''git'', ''config'', ''--global'', ''user.name'', ''github-actions'']"
    by (simp add: git_commands_def)
  have ok: "\<forall>k<3. fst (?r (?cmds ! k) (world_after ?r (take k ?cmds) 0)) = Exited 0"
  proof (intro allI impI)
    fix k :: nat assume "k < 3"
    then have "k = 0 \<or> k = 1 \<or> k = 2" by auto
    then show "fst (?r (?cmds ! k) (world_after ?r (take k ?cmds) 0)) = Exited 0"
      by (auto simp add: git_commands_def default_commit_message_def runner_commit_fails_def)
  qed
  have bad: "fst (?r (?cmds ! 3) (world_after ?r (take 3 ?cmds) 0)) = Exited 1"
    by (simp add: nth3 runner_commit_fails_def)
  have tk: "take (Suc 3) ?cmds = take 4 ?cmds" by (simp add: eval_nat_numeral)
  from publisher_catches_command_failure [of ?r "''patch/patchlist/patch9.txt''" default_commit_message 0,
      THEN conjunct2, THEN conjunct1, rule_format, of 3 1] len ok bad
  have caught: "commands_run (commit_and_push_file ?r ''patch/patchlist/patch9.txt'' default_commit_message 0)
      = take 4 ?cmds
    \<and> printed (commit_and_push_file ?r ''patch/patchlist/patch9.txt'' default_commit_message 0)
      = [Error_committing_and_pushing
           (CalledProcessError [''git'', ''commit'', ''-m'', default_commit_message] 1)]
    \<and> raised (commit_and_push_file ?r ''patch/patchlist/patch9.txt'' default_commit_message 0) = None"
    by (simp only: nth3 tk) simp
  have len0: "(0::nat) < length ?cmds" by (simp add: git_commands_def)
  have ns: "fst (runner_git_missing (?cmds ! 0) (world_after runner_git_missing (take 0 ?cmds) ()))
      = Not_started"
    by (simp add: runner_git_missing_def)
  have tk1: "take (Suc 0) ?cmds = take 1 ?cmds" by simp
  from publisher_catches_command_failure [of runner_git_missing "''patch/patchlist/patch9.txt''"
      default_commit_message "()", THEN conjunct2, THEN conjunct2, THEN conjunct1, rule_format, of 0] len0 ns
  have missing: "commands_run (commit_and_push_file runner_git_missing
        ''patch/patchlist/patch9.txt'' default_commit_message ()) = take 1 ?cmds
    \<and> raised (commit_and_push_file runner_git_missing
        ''patch/patchlist/patch9.txt'' default_commit_message ())
      = Some (OSError [''git'', ''config'', ''--global'', ''user.name'', ''github-actions''])"
    by (simp only: nth0 tk1) simp
  have "\<forall>k<length ?cmds.
      fst (runner_succeeds (?cmds ! k) (world_after runner_succeeds (take k ?cmds) ())) = Exited 0"
    by (simp add: runner_succeeds_def)
  with publisher_catches_command_failure [of runner_succeeds "''patch/patchlist/patch9.txt''"
      default_commit_message "()", THEN conjunct2, THEN conjunct2, THEN conjunct2]
  have fine: "commands_run (commit_and_push_file runner_succeeds
        ''patch/patchlist/patch9.txt'' default_commit_message ()) = ?cmds
    \<and> printed (commit_and_push_file runner_succeeds
        ''patch/patchlist/patch9.txt'' default_commit_message ())
      = [Successfully_committed_and_pushed ''patch/patchlist/patch9.txt'']
    \<and> raised (commit_and_push_file runner_succeeds
        ''patch/patchlist/patch9.txt'' default_commit_message ()) = None"
    by blast
  from len bad caught ns missing fine show ?thesis by (simp only: simp_thms)
qed

section \<open>The deactivated lines\<close>

text \<open>
  Claim C1, as stated, fails: the updater takes, for a deleted or modified filename, the
  last entry of the mapping in its order of iteration, whatever its number. In the manifest
  with the lines \<open>2 a.rgz\<close> and \<open>1 a.rgz\<close>, the deletion of \<open>a.rgz\<close> deactivates the line
  numbered 1 and leaves the line with the highest number as it is.
\<close>

theorem last_entry_deactivated_not_highest_numbered:
  "current_patchfile ''2 a.rgz\<newline>1 a.rgz'' = Inr [(''2'', ''a.rgz''), (''1'', ''a.rgz'')]
   \<and> updated_lines [] ''2 a.rgz\<newline>1 a.rgz'' [(''2'', ''a.rgz''), (''1'', ''a.rgz'')]
        [(''a.rgz'', ''D'')]
      = Inr [''2 a.rgz\<newline>'', ''//1 a.rgz'']"
  by code_simp

text \<open>
  Claim C1, amended. In a run that writes the manifest, every line of the manifest is at its
  position in the output, unchanged or with two slashes put before it, and none is removed.
  A line is rewritten exactly when it is no comment and reads, after stripping, as an
  identifier and a filename such that the filename is deleted or modified and the
  identifier is that of the last entry of the mapping, in its order, that holds this
  filename; so a filename that the mapping does not hold causes no deactivation. When the
  mapping is the one the reader returns for this manifest, the reader and the updater take
  the same identifier and filename from every active line, and the identifiers of the
  active lines are distinct, then for every deleted or modified filename that the mapping
  holds exactly one line is rewritten for it: its last active occurrence in the file; all
  other occurrences of the filename are unchanged, and when the identifiers increase along
  the mapping they have smaller numbers than the rewritten one.
\<close>

theorem deactivation_of_last_occurrence:
  assumes "updated_lines ms manifest valid_entries changes = Inr out"
  shows "length (readlines manifest) \<le> length out
   \<and> (\<forall>i<length (readlines manifest).
         out ! i =
           (if \<not> is_comment (readlines manifest ! i)
               \<and> ((line_filename (readlines manifest ! i), ''D'') \<in> set changes
                  \<or> (line_filename (readlines manifest ! i), ''M'') \<in> set changes)
               \<and> (\<exists>pre post.
                     valid_entries
                       = pre @ [(line_num (readlines manifest ! i),
                                 line_filename (readlines manifest ! i))] @ post
                     \<and> line_filename (readlines manifest ! i) \<notin> snd ` set post)
            then ''//'' @ readlines manifest ! i else readlines manifest ! i))
   \<and> (\<forall>i<length (readlines manifest).
         out ! i \<noteq> readlines manifest ! i \<longrightarrow>
         line_filename (readlines manifest ! i) \<in> snd ` set valid_entries)
   \<and> (current_patchfile manifest = Inr valid_entries
       \<and> (\<forall>line\<in>set (readlines manifest). \<not> is_comment line \<longrightarrow> reads_alike line)
       \<and> distinct (map fst (manifest_entries manifest)) \<longrightarrow>
       (\<forall>f. ((f, ''D'') \<in> set changes \<or> (f, ''M'') \<in> set changes)
            \<and> f \<in> snd ` set valid_entries \<longrightarrow>
          (\<exists>p<length (readlines manifest).
             occurrence_of f (readlines manifest ! p)
             \<and> out ! p = ''//'' @ readlines manifest ! p
             \<and> (\<forall>i<length (readlines manifest).
                   i \<noteq> p \<and> occurrence_of f (readlines manifest ! i) \<longrightarrow>
                   i < p \<and> out ! i = readlines manifest ! i
                   \<and> (sorted_wrt (<) (map (\<lambda>e. the (py_int (fst e))) valid_entries) \<longrightarrow>
                        the (py_int (line_num (readlines manifest ! i)))
                          < the (py_int (line_num (readlines manifest ! p))))))))"
proof -
  let ?lines = "readlines manifest"
  let ?n = "length ?lines"
  let ?lo = "last_occurrences_of valid_entries changes"
  let ?DM = "deleted_files changes \<union> modified_files changes"
  note r = updated_lines_Inr [OF assms]
  have len: "?n \<le> length out" by (simp add: r(3))
  have nth: "out ! i = emit ?lo (?lines ! i)" if "i < ?n" for i
    using that by (simp add: r(3) nth_append)
  have DM: "f \<in> ?DM \<longleftrightarrow> (f, ''D'') \<in> set changes \<or> (f, ''M'') \<in> set changes" for f
    by (simp add: deleted_files_eq modified_files_eq)
  have part1: "out ! i =
           (if \<not> is_comment (?lines ! i)
               \<and> ((line_filename (?lines ! i), ''D'') \<in> set changes
                  \<or> (line_filename (?lines ! i), ''M'') \<in> set changes)
               \<and> (\<exists>pre post.
                     valid_entries = pre @ [(line_num (?lines ! i), line_filename (?lines ! i))] @ post
                     \<and> line_filename (?lines ! i) \<notin> snd ` set post)
            then ''//'' @ ?lines ! i else ?lines ! i)" if "i < ?n" for i
    unfolding nth [OF that] emit_last_occurrences DM last_entry_Some_iff by simp
  have part2: "line_filename (?lines ! i) \<in> snd ` set valid_entries"
    if "i < ?n" "out ! i \<noteq> ?lines ! i" for i
  proof -
    from part1 [OF that(1)] that(2) obtain pre post where
      "valid_entries = pre @ [(line_num (?lines ! i), line_filename (?lines ! i))] @ post"
      by (auto split: if_splits)
    then show ?thesis by force
  qed
  have part3: "\<exists>p<?n. occurrence_of f (?lines ! p) \<and> out ! p = ''//'' @ ?lines ! p
             \<and> (\<forall>i<?n. i \<noteq> p \<and> occurrence_of f (?lines ! i) \<longrightarrow>
                   i < p \<and> out ! i = ?lines ! i
                   \<and> (sorted_wrt (<) (map (\<lambda>e. the (py_int (fst e))) valid_entries) \<longrightarrow>
                        the (py_int (line_num (?lines ! i))) < the (py_int (line_num (?lines ! p)))))"
    if rd: "current_patchfile manifest = Inr valid_entries"
      and alike: "\<forall>line\<in>set ?lines. \<not> is_comment line \<longrightarrow> reads_alike line"
      and dist: "distinct (map fst (manifest_entries manifest))"
      and f: "(f, ''D'') \<in> set changes \<or> (f, ''M'') \<in> set changes" "f \<in> snd ` set valid_entries"
    for f
  proof -
    have ve: "valid_entries = manifest_entries manifest"
      using rd dist by (rule current_patchfile_entries)
    have "manifest_entries manifest
        = map (\<lambda>l. (line_num l, line_filename l)) (filter (\<lambda>l. \<not> is_comment l) ?lines)"
      unfolding manifest_entries_def using alike by (intro map_cong) (auto simp add: reads_alike_def)
    with ve have ve': "valid_entries
        = map (\<lambda>l. (line_num l, line_filename l)) (filter (\<lambda>l. \<not> is_comment l) ?lines)" by simp
    from dist ve have dist': "distinct (map fst valid_entries)" by simp
    from last_entry_exists [OF f(2)] obtain k where k: "last_entry valid_entries f = Some k" by blast
    from last_occurrence_in_lines [OF ve' dist' k] obtain p where
      p: "p < ?n" "occurrence_of f (?lines ! p)" "line_num (?lines ! p) = k"
      and oth: "\<forall>i<?n. i \<noteq> p \<and> occurrence_of f (?lines ! i) \<longrightarrow>
                 i < p \<and> line_num (?lines ! i) \<noteq> k
                 \<and> (sorted_wrt (<) (map (\<lambda>e. the (py_int (fst e))) valid_entries) \<longrightarrow>
                      the (py_int (line_num (?lines ! i))) < the (py_int k))"
      by blast
    from f(1) have fDM: "f \<in> ?DM" by (simp add: deleted_files_eq modified_files_eq)
    have outp: "out ! p = ''//'' @ ?lines ! p"
      using p k fDM unfolding nth [OF p(1)] emit_last_occurrences
      by (simp add: occurrence_of_def)
    have "i < p \<and> out ! i = ?lines ! i
          \<and> (sorted_wrt (<) (map (\<lambda>e. the (py_int (fst e))) valid_entries) \<longrightarrow>
               the (py_int (line_num (?lines ! i))) < the (py_int (line_num (?lines ! p))))"
      if i: "i < ?n" "i \<noteq> p \<and> occurrence_of f (?lines ! i)" for i
    proof -
      from oth i have a: "i < p" "line_num (?lines ! i) \<noteq> k"
        and s: "sorted_wrt (<) (map (\<lambda>e. the (py_int (fst e))) valid_entries) \<longrightarrow>
                      the (py_int (line_num (?lines ! i))) < the (py_int k)"
        by blast+
      from i(2) have "line_filename (?lines ! i) = f" by (simp add: occurrence_of_def)
      with a(2) k have "out ! i = ?lines ! i"
        unfolding nth [OF i(1)] emit_last_occurrences by simp
      with a(1) s p(3) show ?thesis by simp
    qed
    with p(1,2) outp show ?thesis by blast
  qed
  from len part1 part2 part3 show ?thesis by blast
qed

theorem deactivation_of_last_occurrence_witness:
  "updated_lines [] ''1 a.rgz\<newline>2 b.gpf\<newline>3 a.rgz''
      [(''1'', ''a.rgz''), (''2'', ''b.gpf''), (''3'', ''a.rgz'')] [(''a.rgz'', ''D'')]
     = Inr [''1 a.rgz\<newline>'', ''2 b.gpf\<newline>'', ''//3 a.rgz'']
   \<and> current_patchfile ''1 a.rgz\<newline>2 b.gpf\<newline>3 a.rgz''
     = Inr [(''1'', ''a.rgz''), (''2'', ''b.gpf''), (''3'', ''a.rgz'')]
   \<and> readlines ''1 a.rgz\<newline>2 b.gpf\<newline>3 a.rgz''
     = [''1 a.rgz\<newline>'', ''2 b.gpf\<newline>'', ''3 a.rgz'']
   \<and> reads_alike ''1 a.rgz\<newline>'' \<and> reads_alike ''2 b.gpf\<newline>'' \<and> reads_alike ''3 a.rgz''
   \<and> distinct (map fst (manifest_entries ''1 a.rgz\<newline>2 b.gpf\<newline>3 a.rgz''))
   \<and> (''a.rgz'', ''D'') \<in> set [(''a.rgz'', ''D'')]
   \<and> ''a.rgz'' \<in> snd ` set [(''1'', ''a.rgz''), (''2'', ''b.gpf''), (''3'', ''a.rgz'')]
   \<and> sorted_wrt (<) (map (\<lambda>e. the (py_int (fst e)))
         [(''1'', ''a.rgz''), (''2'', ''b.gpf''), (''3'', ''a.rgz'')])
   \<and> occurrence_of ''a.rgz'' ''1 a.rgz\<newline>'' \<and> occurrence_of ''a.rgz'' ''3 a.rgz''
   \<and> [''1 a.rgz\<newline>'', ''2 b.gpf\<newline>'', ''//3 a.rgz''] ! 2 = ''//'' @ ''3 a.rgz''
   \<and> [''1 a.rgz\<newline>'', ''2 b.gpf\<newline>'', ''//3 a.rgz''] ! 0 = ''1 a.rgz\<newline>''
   \<and> the (py_int (line_num ''1 a.rgz\<newline>'')) < the (py_int (line_num ''3 a.rgz''))"
proof -
  let ?m = "''1 a.rgz\<newline>2 b.gpf\<newline>3 a.rgz''"
  let ?ve = "[(''1'', ''a.rgz''), (''2'', ''b.gpf''), (''3'', ''a.rgz'')]"
  let ?out = "[''1 a.rgz\<newline>'', ''2 b.gpf\<newline>'', ''//3 a.rgz'']"
  have h1: "updated_lines [] ?m ?ve [(''a.rgz'', ''D'')] = Inr ?out" by code_simp
  have h2: "current_patchfile ?m = Inr ?ve" by code_simp
  have ls: "readlines ?m = [''1 a.rgz\<newline>'', ''2 b.gpf\<newline>'', ''3 a.rgz'']" by simp
  have ra: "reads_alike ''1 a.rgz\<newline>''" "reads_alike ''2 b.gpf\<newline>''" "reads_alike ''3 a.rgz''"
    by code_simp+
  from ra have h3: "\<forall>line\<in>set (readlines ?m). \<not> is_comment line \<longrightarrow> reads_alike line"
    unfolding ls by simp
  have h4: "distinct (map fst (manifest_entries ?m))" by code_simp
  have h5: "(''a.rgz'', ''D'') \<in> set [(''a.rgz'', ''D'')]" by simp
  have h6: "''a.rgz'' \<in> snd ` set ?ve" by simp
  have h7: "sorted_wrt (<) (map (\<lambda>e. the (py_int (fst e))) ?ve)" by code_simp
  have occ: "occurrence_of ''a.rgz'' ''1 a.rgz\<newline>''" "occurrence_of ''a.rgz'' ''3 a.rgz''"
    by code_simp+
  from deactivation_of_last_occurrence [OF h1] h2 h3 h4 h5 h6
  obtain p where p: "p < length (readlines ?m)"
    and outp: "?out ! p = ''//'' @ readlines ?m ! p"
    and oth: "\<forall>i<length (readlines ?m). i \<noteq> p \<and> occurrence_of ''a.rgz'' (readlines ?m ! i) \<longrightarrow>
                i < p \<and> ?out ! i = readlines ?m ! i
                \<and> (sorted_wrt (<) (map (\<lambda>e. the (py_int (fst e))) ?ve) \<longrightarrow>
                     the (py_int (line_num (readlines ?m ! i)))
                       < the (py_int (line_num (readlines ?m ! p))))"
    by blast
  have p2: "p = 2"
  proof (rule ccontr)
    assume "p \<noteq> 2"
    with oth [rule_format, of 2] occ(2) have "2 < p" by (simp add: ls)
    with p show False by (simp add: ls)
  qed
  from outp have o2: "?out ! 2 = ''//'' @ ''3 a.rgz''" unfolding p2 ls by simp
  from oth [rule_format, of 0] occ(1) h7
  have o0: "?out ! 0 = ''1 a.rgz\<newline>''"
    and lt: "the (py_int (line_num ''1 a.rgz\<newline>'')) < the (py_int (line_num ''3 a.rgz''))"
    unfolding p2 ls by simp_all
  from h1 h2 ls ra h4 h5 h6 h7 occ o2 o0 lt show ?thesis by (simp only: simp_thms)
qed

end
